theory Spec2Isabelle
  imports Main "HOL-Library.Word"
begin

section \<open>JavaScript strings\<close>

text \<open>
  A JavaScript string is a sequence of 16-bit code units. The regular expression of
  \<open>containsJapanese\<close> has no \<open>u\<close> flag, so it matches code units, and
  \<open>String.prototype.trim\<close> removes code units; both are modelled on code units.
\<close>

type_synonym jsstring = "16 word list"

definition lit :: "string \<Rightarrow> jsstring" where
  "lit s = map of_char s"

definition dq :: jsstring where
  "dq = [0x22]"

text \<open>
  The code units \<open>trim\<close> strips: ECMAScript WhiteSpace (TAB, VT, FF, SP, NBSP, ZWNBSP
  and the Unicode space separators) and LineTerminator (LF, CR, LS, PS).
\<close>

definition isWhiteSpace :: "16 word \<Rightarrow> bool" where
  "isWhiteSpace c \<longleftrightarrow>
     c = 0x09 \<or> c = 0x0A \<or> c = 0x0B \<or> c = 0x0C \<or> c = 0x0D \<or> c = 0x20 \<or> c = 0xA0 \<or>
     c = 0x1680 \<or> (0x2000 \<le> c \<and> c \<le> 0x200A) \<or> c = 0x2028 \<or> c = 0x2029 \<or>
     c = 0x202F \<or> c = 0x205F \<or> c = 0x3000 \<or> c = 0xFEFF"

definition trim :: "jsstring \<Rightarrow> jsstring" where
  "trim s = rev (dropWhile isWhiteSpace (rev (dropWhile isWhiteSpace s)))"

section \<open>containsJapanese\<close>

text \<open>
  One character class, unanchored: \<open>test\<close> succeeds when some code unit of the text lies
  in one of the six ranges.
\<close>

definition japaneseUnit :: "16 word \<Rightarrow> bool" where
  "japaneseUnit c \<longleftrightarrow>
     (0x3000 \<le> c \<and> c \<le> 0x303f) \<or> (0x3040 \<le> c \<and> c \<le> 0x309f) \<or>
     (0x30a0 \<le> c \<and> c \<le> 0x30ff) \<or> (0xff00 \<le> c \<and> c \<le> 0xff9f) \<or>
     (0x4e00 \<le> c \<and> c \<le> 0x9faf) \<or> (0x3400 \<le> c \<and> c \<le> 0x4dbf)"

definition containsJapanese :: "jsstring \<Rightarrow> bool" where
  "containsJapanese text = list_ex japaneseUnit text"

subsection \<open>The specification's reading: code points\<close>

text \<open>
  The specification speaks of the code points of the text. \<open>codePoints\<close> decodes UTF-16
  the way the string iterator does: a high surrogate followed by a low surrogate is one
  code point above \<open>0xFFFF\<close>, any other code unit is its own code point.
  \<open>regexRange\<close> reads the six ranges of the regular expression on code points.
\<close>

definition isHighSurrogate :: "16 word \<Rightarrow> bool" where
  "isHighSurrogate c \<longleftrightarrow> 0xD800 \<le> c \<and> c \<le> 0xDBFF"

definition isLowSurrogate :: "16 word \<Rightarrow> bool" where
  "isLowSurrogate c \<longleftrightarrow> 0xDC00 \<le> c \<and> c \<le> 0xDFFF"

fun codePoints :: "jsstring \<Rightarrow> nat list" where
  "codePoints [] = []"
| "codePoints [c] = [unat c]"
| "codePoints (h # l # rest) =
     (if isHighSurrogate h \<and> isLowSurrogate l
      then (0x10000 + (unat h - 0xD800) * 0x400 + (unat l - 0xDC00)) # codePoints rest
      else unat h # codePoints (l # rest))"

definition regexRange :: "nat \<Rightarrow> bool" where
  "regexRange cp \<longleftrightarrow>
     (0x3000 \<le> cp \<and> cp \<le> 0x303f) \<or> (0x3040 \<le> cp \<and> cp \<le> 0x309f) \<or>
     (0x30a0 \<le> cp \<and> cp \<le> 0x30ff) \<or> (0xff00 \<le> cp \<and> cp \<le> 0xff9f) \<or>
     (0x4e00 \<le> cp \<and> cp \<le> 0x9faf) \<or> (0x3400 \<le> cp \<and> cp \<le> 0x4dbf)"

text \<open>
  The specification does not give ranges; it names the blocks of the target script:
  full-width punctuation (CJK Symbols and Punctuation, \<open>U+3000\<close> to \<open>U+303F\<close>), hiragana
  (\<open>U+3040\<close> to \<open>U+309F\<close>), katakana (\<open>U+30A0\<close> to \<open>U+30FF\<close>), full-width forms (Halfwidth
  and Fullwidth Forms, \<open>U+FF00\<close> to \<open>U+FFEF\<close>), the common ideographs (CJK Unified
  Ideographs, \<open>U+4E00\<close> to \<open>U+9FFF\<close>) and the extended ideographs (Extension A,
  \<open>U+3400\<close> to \<open>U+4DBF\<close>, and the Extensions B to H above the basic plane).
  \<open>namedBlock\<close> follows these words, block by block.
\<close>

definition namedBlock :: "nat \<Rightarrow> bool" where
  "namedBlock cp \<longleftrightarrow>
     (0x3000 \<le> cp \<and> cp \<le> 0x303F) \<or> (0x3040 \<le> cp \<and> cp \<le> 0x309F) \<or>
     (0x30A0 \<le> cp \<and> cp \<le> 0x30FF) \<or> (0xFF00 \<le> cp \<and> cp \<le> 0xFFEF) \<or>
     (0x4E00 \<le> cp \<and> cp \<le> 0x9FFF) \<or> (0x3400 \<le> cp \<and> cp \<le> 0x4DBF) \<or>
     (0x20000 \<le> cp \<and> cp \<le> 0x2A6DF) \<or> (0x2A700 \<le> cp \<and> cp \<le> 0x2B73F) \<or>
     (0x2B740 \<le> cp \<and> cp \<le> 0x2B81F) \<or> (0x2B820 \<le> cp \<and> cp \<le> 0x2CEAF) \<or>
     (0x2CEB0 \<le> cp \<and> cp \<le> 0x2EBEF) \<or> (0x30000 \<le> cp \<and> cp \<le> 0x3134F) \<or>
     (0x31350 \<le> cp \<and> cp \<le> 0x323AF)"

section \<open>The syntax tree\<close>

text \<open>
  The tree of the parser, as far as \<open>transform\<close> looks at it. Every node carries the
  comments attached to it (the \<open>comments\<close> field). A \<open>StringLiteral\<close> and a \<open>JSXText\<close> have
  a \<open>value\<close> and no child nodes; every other node type is \<open>Other\<close>, with its type name and
  its child nodes in traversal order. A comment is a block or a line comment with its
  \<open>value\<close>.
\<close>

datatype comment_type = CommentBlock | CommentLine

datatype comment = Comment (ctype: comment_type) (cvalue: jsstring)

datatype node =
    StringLiteral (comments: "comment list") jsstring
  | JSXText (comments: "comment list") jsstring
  | Other (comments: "comment list") string "node list"

type_synonym node_path = "nat list"

text \<open>The builders \<open>j.stringLiteral\<close> and \<open>j.jsxText\<close>: a fresh node, nothing attached.\<close>

definition stringLiteral :: "jsstring \<Rightarrow> node" where
  "stringLiteral v = StringLiteral [] v"

definition jsxText :: "jsstring \<Rightarrow> node" where
  "jsxText v = JSXText [] v"

text \<open>The node a path leads to, if the path exists in the tree.\<close>

fun get_node :: "node_path \<Rightarrow> node \<Rightarrow> node option" where
  "get_node [] n = Some n"
| "get_node (i # p) (Other cs ty ns) = (if i < length ns then get_node p (ns ! i) else None)"
| "get_node (i # p) (StringLiteral cs v) = None"
| "get_node (i # p) (JSXText cs v) = None"

text \<open>
  A write through a path: the node at the path becomes \<open>f\<close> of it. A path that no
  longer exists in the tree leads to a node that was detached from it, and the write
  does not show in the tree.
\<close>

fun update_at :: "node_path \<Rightarrow> (node \<Rightarrow> node) \<Rightarrow> node \<Rightarrow> node" where
  "update_at [] f n = f n"
| "update_at (i # p) f (Other cs ty ns) =
     (if i < length ns then Other cs ty (ns[i := update_at p f (ns ! i)]) else Other cs ty ns)"
| "update_at (i # p) f (StringLiteral cs v) = StringLiteral cs v"
| "update_at (i # p) f (JSXText cs v) = JSXText cs v"

text \<open>All nodes with their paths, in traversal order (\<open>root.find(...).paths()\<close>).\<close>

fun paths :: "node \<Rightarrow> (node_path \<times> node) list"
  and pathsFrom :: "nat \<Rightarrow> node list \<Rightarrow> (node_path \<times> node) list" where
  "paths (StringLiteral cs v) = [([], StringLiteral cs v)]"
| "paths (JSXText cs v) = [([], JSXText cs v)]"
| "paths (Other cs ty ns) = ([], Other cs ty ns) # pathsFrom 0 ns"
| "pathsFrom i [] = []"
| "pathsFrom i (n # ns) = map (\<lambda>(p, m). (i # p, m)) (paths n) @ pathsFrom (Suc i) ns"

text \<open>\<open>path.value.value = v\<close> on the \<open>i\<close>-th comment of a node: the kind of comment stays.\<close>

fun map_comments :: "(comment list \<Rightarrow> comment list) \<Rightarrow> node \<Rightarrow> node" where
  "map_comments g (StringLiteral cs v) = StringLiteral (g cs) v"
| "map_comments g (JSXText cs v) = JSXText (g cs) v"
| "map_comments g (Other cs ty ns) = Other (g cs) ty ns"

definition assignCommentValue :: "nat \<Rightarrow> jsstring \<Rightarrow> node \<Rightarrow> node" where
  "assignCommentValue i v n =
     map_comments (\<lambda>cs. if i < length cs then cs[i := Comment (ctype (cs ! i)) v] else cs) n"

definition comment_at :: "node_path \<Rightarrow> nat \<Rightarrow> node \<Rightarrow> comment option" where
  "comment_at p i root =
     (case get_node p root of
        None \<Rightarrow> None
      | Some n \<Rightarrow> if i < length (comments n) then Some (comments n ! i) else None)"

section \<open>Collaborators and observable steps\<close>

datatype js_error = Error (message: jsstring)

datatype arg = Str jsstring | Err js_error

datatype target = LiteralAt node_path | JSXTextAt node_path | CommentAt node_path nat

datatype node_kind = KStringLiteral | KJSXText | KComment

text \<open>
  What a run does, in the order it does it: console output, a search of the tree
  (\<open>root.find\<close>), a call of \<open>openai.chat.completions.create\<close> with the user content, and
  a write into the tree.
\<close>

datatype event =
    ConsoleLog "arg list"
  | ConsoleError "arg list"
  | Find node_kind
  | Create jsstring
  | Mutate target

datatype chat_message = Message (content: "jsstring option")

datatype choice = Choice (message: chat_message)

datatype response = Response (choices: "choice list")

text \<open>
  The collaborators: the parser and printer of jscodeshift (the parser chosen by
  \<open>withParser\<close>), the OpenAI client (its constructor may throw; the \<open>k\<close>-th call of
  \<open>create\<close> returns a response or fails), and the file system's \<open>writeFile\<close>.
\<close>

record env =
  parser :: "string option \<Rightarrow> jsstring \<Rightarrow> js_error + node"
  toSource :: "node \<Rightarrow> js_error + jsstring"
  newOpenAI :: "js_error option"
  create :: "nat \<Rightarrow> jsstring \<Rightarrow> js_error + response"
  writeFile_error :: "jsstring \<Rightarrow> js_error option"

section \<open>translateToEnglish\<close>

text \<open>
  An asynchronous call: what it does before it returns its promise, what it does when
  the awaited backend call settles, and how the promise settles (\<open>Inl\<close>: rejected).
\<close>

record pending =
  at_call :: "event list"
  at_settle :: "event list"
  settled :: "js_error + jsstring"

definition dryRunLine :: "jsstring \<Rightarrow> jsstring \<Rightarrow> jsstring" where
  "dryRunLine fileName text =
     lit ''File: '' @ fileName @ lit '', Would translate: '' @ dq @ text @ dq"

definition dryRunMarker :: "jsstring \<Rightarrow> jsstring" where
  "dryRunMarker text = lit ''[DRYRUN] Would translate: '' @ dq @ text @ dq"

definition failureLine :: "jsstring \<Rightarrow> jsstring \<Rightarrow> jsstring" where
  "failureLine text fileName =
     lit ''Translation failed for text: '' @ dq @ text @ dq @ lit '' in file: '' @ dq @
     fileName @ dq"

text \<open>
  \<open>response.choices[0].message.content.trim()\<close>: a \<open>TypeError\<close> when there is no first
  choice or its content is \<open>null\<close>.
\<close>

definition firstContent :: "response \<Rightarrow> js_error + jsstring" where
  "firstContent r =
     (case choices r of
        [] \<Rightarrow> Inl (Error (lit ''TypeError: choices[0] is undefined''))
      | c # _ \<Rightarrow>
          (case content (message c) of
             None \<Rightarrow> Inl (Error (lit ''TypeError: content is null''))
           | Some s \<Rightarrow> Inr (trim s)))"

text \<open>The body of the \<open>try\<close> block: the \<open>k\<close>-th backend call and the reading of its response.\<close>

definition completion :: "env \<Rightarrow> nat \<Rightarrow> jsstring \<Rightarrow> js_error + jsstring" where
  "completion env k text =
     (case create env k text of Inl e \<Rightarrow> Inl e | Inr r \<Rightarrow> firstContent r)"

definition translateToEnglish :: "env \<Rightarrow> nat \<Rightarrow> jsstring \<Rightarrow> bool \<Rightarrow> jsstring \<Rightarrow> pending" where
  "translateToEnglish env k text isDryRun fileName =
     (if isDryRun then
        \<lparr>at_call = [ConsoleLog [Str (dryRunLine fileName text)]], at_settle = [],
         settled = Inr (dryRunMarker text)\<rparr>
      else
        (case newOpenAI env of
           Some e \<Rightarrow> \<lparr>at_call = [], at_settle = [], settled = Inl e\<rparr>
         | None \<Rightarrow>
             (case completion env k text of
                Inr translated \<Rightarrow>
                  \<lparr>at_call = [Create text], at_settle = [], settled = Inr translated\<rparr>
              | Inl error \<Rightarrow>
                  \<lparr>at_call = [Create text],
                   at_settle = [ConsoleError [Str (failureLine text fileName), Err error]],
                   settled = Inr text\<rparr>)))"

section \<open>transform\<close>

text \<open>
  The three loops. Each takes the paths of one kind of node and, for a node whose text
  contains Japanese, calls \<open>translateToEnglish\<close> and pushes the promise with its
  callback. A candidate is the place the callback writes to and the text sent.
\<close>

definition literalCandidates :: "node \<Rightarrow> (target \<times> jsstring) list" where
  "literalCandidates root =
     List.map_filter
       (\<lambda>(p, n). case n of
            StringLiteral cs v \<Rightarrow> if containsJapanese v then Some (LiteralAt p, v) else None
          | _ \<Rightarrow> None)
       (paths root)"

definition jsxCandidates :: "node \<Rightarrow> (target \<times> jsstring) list" where
  "jsxCandidates root =
     List.map_filter
       (\<lambda>(p, n). case n of
            JSXText cs v \<Rightarrow>
              if containsJapanese (trim v) then Some (JSXTextAt p, trim v) else None
          | _ \<Rightarrow> None)
       (paths root)"

text \<open>
  \<open>root.find(j.Comment)\<close> collects the comment paths in the order in which the visitor
  reaches them. The visitor goes through the fields of a node in turn, and the field
  \<open>comments\<close> comes after the fields that hold the children: the comments attached below
  a node are reached before the comments attached to the node itself.
\<close>

fun commentPaths :: "node \<Rightarrow> (node_path \<times> nat \<times> comment) list"
  and commentPathsFrom :: "nat \<Rightarrow> node list \<Rightarrow> (node_path \<times> nat \<times> comment) list" where
  "commentPaths (StringLiteral cs v) = map (\<lambda>(i, c). ([], i, c)) (enumerate 0 cs)"
| "commentPaths (JSXText cs v) = map (\<lambda>(i, c). ([], i, c)) (enumerate 0 cs)"
| "commentPaths (Other cs ty ns) =
     commentPathsFrom 0 ns @ map (\<lambda>(i, c). ([], i, c)) (enumerate 0 cs)"
| "commentPathsFrom i [] = []"
| "commentPathsFrom i (n # ns) =
     map (\<lambda>(p, j, c). (i # p, j, c)) (commentPaths n) @ commentPathsFrom (Suc i) ns"

definition commentCandidates :: "node \<Rightarrow> (target \<times> jsstring) list" where
  "commentCandidates root =
     List.map_filter
       (\<lambda>(p, i, c). if containsJapanese (trim (cvalue c))
                     then Some (CommentAt p i, trim (cvalue c)) else None)
       (commentPaths root)"

definition candidates :: "node \<Rightarrow> (target \<times> jsstring) list" where
  "candidates root = literalCandidates root @ jsxCandidates root @ commentCandidates root"

record promise =
  target :: target
  request :: jsstring
  pend :: pending

definition translationPromises :: "env \<Rightarrow> node \<Rightarrow> bool \<Rightarrow> jsstring \<Rightarrow> promise list" where
  "translationPromises env root dryRun filePath =
     map (\<lambda>(k, (tg, text)).
            \<lparr>target = tg, request = text,
             pend = translateToEnglish env k text dryRun filePath\<rparr>)
         (enumerate 0 (candidates root))"

definition loopEvents :: "node_kind \<Rightarrow> promise list \<Rightarrow> event list" where
  "loopEvents kind ps = Find kind # concat (map (\<lambda>p. at_call (pend p)) ps)"

text \<open>The synchronous part of \<open>transform\<close>, up to \<open>await Promise.all\<close>.\<close>

definition loopsEvents :: "node \<Rightarrow> promise list \<Rightarrow> event list" where
  "loopsEvents root ps =
     (let n1 = length (literalCandidates root); n2 = length (jsxCandidates root) in
      loopEvents KStringLiteral (take n1 ps) @
      loopEvents KJSXText (take n2 (drop n1 ps)) @
      loopEvents KComment (drop (n1 + n2) ps))"

text \<open>
  The three callbacks. A literal and a JSX text are replaced by a fresh node built from
  the text alone (\<open>replaceWith\<close>); a comment is assigned its new value in place. The
  callbacks hold the paths found by the loops. The only change of structure in a run is
  that a node without children is replaced by a fresh node without children and without
  comments, so a path either still leads to the node it was found at, or it led to a
  comment of a node that has been replaced: then the comment is no longer part of the
  tree, and the path, followed in the tree, finds no comment to write to.
\<close>

fun callback :: "target \<Rightarrow> jsstring \<Rightarrow> node \<Rightarrow> node" where
  "callback (LiteralAt p) translatedText root =
     update_at p (\<lambda>_. stringLiteral translatedText) root"
| "callback (JSXTextAt p) translatedText root =
     update_at p (\<lambda>_. jsxText (lit '' '' @ translatedText @ lit '' '')) root"
| "callback (CommentAt p i) translatedText root =
     update_at p (assignCommentValue i (lit '' '' @ translatedText @ lit '' '')) root"

text \<open>
  One promise settles: what \<open>translateToEnglish\<close> does after its \<open>await\<close>, then the
  callback. A rejected promise runs no callback.
\<close>

definition settleOne :: "promise list \<Rightarrow> nat \<Rightarrow> node \<times> event list \<Rightarrow> node \<times> event list" where
  "settleOne ps k st =
     (if k < length ps then
        (case settled (pend (ps ! k)) of
           Inr translatedText \<Rightarrow>
             (callback (target (ps ! k)) translatedText (fst st),
              snd st @ at_settle (pend (ps ! k)) @ [Mutate (target (ps ! k))])
         | Inl e \<Rightarrow> st)
      else st)"

definition settleAll :: "promise list \<Rightarrow> nat list \<Rightarrow> node \<Rightarrow> node \<times> event list" where
  "settleAll ps order root = fold (settleOne ps) order (root, [])"

text \<open>\<open>Promise.all\<close> rejects with the first rejection.\<close>

definition rejection :: "promise list \<Rightarrow> js_error option" where
  "rejection ps =
     (case List.map_filter (\<lambda>p. case settled (pend p) of Inl e \<Rightarrow> Some e | Inr _ \<Rightarrow> None) ps of
        [] \<Rightarrow> None
      | e # _ \<Rightarrow> Some e)"

record fileInfo =
  path :: jsstring
  source :: jsstring

record options =
  dryRun :: bool

text \<open>
  The tree after \<open>await Promise.all\<close>. In a dry run every promise is resolved when it is
  created and the callbacks run in the order of creation; otherwise the promises settle
  in the order \<open>sched\<close>, which the backend decides.
\<close>

definition settleOrder :: "options \<Rightarrow> nat list \<Rightarrow> promise list \<Rightarrow> nat list" where
  "settleOrder options sched ps = (if dryRun options then [0..<length ps] else sched)"

definition tryBlock ::
  "env \<Rightarrow> nat list \<Rightarrow> fileInfo \<Rightarrow> string option \<Rightarrow> options \<Rightarrow> (js_error + jsstring) \<times> event list"
where
  "tryBlock env sched fileInfo api options =
     (case parser env api (source fileInfo) of
        Inl e \<Rightarrow> (Inl e, [])
      | Inr root \<Rightarrow>
          (let ps = translationPromises env root (dryRun options) (path fileInfo);
               ev1 = loopsEvents root ps
           in case rejection ps of
                Some e \<Rightarrow> (Inl e, ev1)
              | None \<Rightarrow>
                  (let (root', ev2) = settleAll ps (settleOrder options sched ps) root
                   in (toSource env root', ev1 @ ev2))))"

definition failedLine :: "jsstring \<Rightarrow> js_error \<Rightarrow> jsstring" where
  "failedLine filePath error = lit ''Failed to process '' @ filePath @ lit '': '' @ js_error.message error"

definition transform ::
  "env \<Rightarrow> nat list \<Rightarrow> fileInfo \<Rightarrow> string option \<Rightarrow> options \<Rightarrow> jsstring \<times> event list"
where
  "transform env sched fileInfo api options =
     (case tryBlock env sched fileInfo api options of
        (Inr output, ev) \<Rightarrow> (output, ev)
      | (Inl error, ev) \<Rightarrow>
          (source fileInfo, ev @ [ConsoleError [Str (failedLine (path fileInfo) error)]]))"

section \<open>processFile\<close>

definition endsWith :: "jsstring \<Rightarrow> jsstring \<Rightarrow> bool" where
  "endsWith s x \<longleftrightarrow> length x \<le> length s \<and> drop (length s - length x) s = x"

definition parserFor :: "jsstring \<Rightarrow> string option" where
  "parserFor file =
     (if endsWith file (lit ''.ts'') \<or> endsWith file (lit ''.tsx'') then Some ''tsx'' else None)"

definition skipped :: "jsstring \<Rightarrow> js_error \<Rightarrow> event list" where
  "skipped file error =
     [ConsoleError [Str (lit ''Error processing '' @ file @ lit '':''), Err error],
      ConsoleLog [Str (lit ''Skipped '' @ file @ lit '' due to error'')]]"

text \<open>
  The file system is a map from file names to contents; reading a file that is not
  there throws.
\<close>

definition processFile ::
  "env \<Rightarrow> nat list \<Rightarrow> (jsstring \<rightharpoonup> jsstring) \<Rightarrow> jsstring \<Rightarrow> options \<Rightarrow>
   (jsstring \<rightharpoonup> jsstring) \<times> event list"
where
  "processFile env sched fs file options =
     (case fs file of
        None \<Rightarrow> (fs, skipped file (Error (lit ''ENOENT'')))
      | Some src \<Rightarrow>
          (let (output, ev) =
                 transform env sched \<lparr>path = file, source = src\<rparr> (parserFor file) options
           in if \<not> dryRun options then
                (case writeFile_error env file of
                   Some e \<Rightarrow> (fs, ev @ skipped file e)
                 | None \<Rightarrow>
                     (fs(file \<mapsto> output),
                      ev @ [ConsoleLog [Str (lit ''Processed '' @ file)]]))
              else (fs, ev)))"

section \<open>Reading the tree\<close>

text \<open>
  What the claims observe of a tree. A candidate is addressed by its target; \<open>host\<close> is
  the node the target sits on, \<open>payload\<close> the text found at the target, if the target is
  in the tree. \<open>sent\<close> is the text a loop hands to \<open>translateToEnglish\<close> (the literal's value
  as it is, the trimmed value of a JSX text or comment), \<open>written\<close> the text a callback
  stores for a result (bare for a literal, between two spaces for a JSX text or comment).
\<close>

fun host :: "target \<Rightarrow> node_path" where
  "host (LiteralAt p) = p"
| "host (JSXTextAt p) = p"
| "host (CommentAt p i) = p"

fun replaces :: "target \<Rightarrow> bool" where
  "replaces (LiteralAt p) = True"
| "replaces (JSXTextAt p) = True"
| "replaces (CommentAt p i) = False"

fun padded :: "target \<Rightarrow> bool" where
  "padded (LiteralAt p) = False"
| "padded (JSXTextAt p) = True"
| "padded (CommentAt p i) = True"

fun node_payload :: "target \<Rightarrow> node \<Rightarrow> jsstring option" where
  "node_payload (LiteralAt p) (StringLiteral cs v) = Some v"
| "node_payload (JSXTextAt p) (JSXText cs v) = Some v"
| "node_payload (CommentAt p i) n =
     (if i < length (comments n) then Some (cvalue (comments n ! i)) else None)"
| "node_payload tg n = None"

definition payload :: "target \<Rightarrow> node \<Rightarrow> jsstring option" where
  "payload tg root =
     (case get_node (host tg) root of None \<Rightarrow> None | Some n \<Rightarrow> node_payload tg n)"

fun sent :: "target \<Rightarrow> jsstring \<Rightarrow> jsstring" where
  "sent (LiteralAt p) v = v"
| "sent (JSXTextAt p) v = trim v"
| "sent (CommentAt p i) v = trim v"

fun written :: "target \<Rightarrow> jsstring \<Rightarrow> jsstring" where
  "written (LiteralAt p) r = r"
| "written (JSXTextAt p) r = lit '' '' @ r @ lit '' ''"
| "written (CommentAt p i) r = lit '' '' @ r @ lit '' ''"

text \<open>A text that \<open>trim\<close> leaves as it is: empty, or with no white space at either end.\<close>

definition trimmed :: "jsstring \<Rightarrow> bool" where
  "trimmed s \<longleftrightarrow> s = [] \<or> (\<not> isWhiteSpace (hd s) \<and> \<not> isWhiteSpace (last s))"

text \<open>
  The text \<open>translateToEnglish\<close> resolves with, when its promise is not rejected, and the
  tree \<open>transform\<close> hands to the printer: the parsed tree after every promise has settled.
\<close>

definition translated :: "env \<Rightarrow> nat \<Rightarrow> jsstring \<Rightarrow> bool \<Rightarrow> jsstring" where
  "translated env k text isDryRun =
     (if isDryRun then dryRunMarker text
      else case completion env k text of Inr s \<Rightarrow> s | Inl e \<Rightarrow> text)"

definition translatedTree :: "env \<Rightarrow> nat list \<Rightarrow> node \<Rightarrow> options \<Rightarrow> jsstring \<Rightarrow> node" where
  "translatedTree env sched root options filePath =
     (let ps = translationPromises env root (dryRun options) filePath
      in fst (settleAll ps (settleOrder options sched ps) root))"

definition targets :: "node \<Rightarrow> target set" where
  "targets root = fst ` set (candidates root)"

text \<open>An order in which \<open>n\<close> promises settle: each of them once.\<close>

definition schedule :: "nat \<Rightarrow> nat list \<Rightarrow> bool" where
  "schedule n order \<longleftrightarrow> distinct order \<and> set order = {0..<n}"

text \<open>
  A target is lost when another candidate replaces the node it sits on: the comments
  of a literal or JSX text that is itself a candidate.
\<close>

definition kills :: "target \<Rightarrow> target \<Rightarrow> bool" where
  "kills tg' tg \<longleftrightarrow> replaces tg' \<and> host tg' = host tg \<and> tg' \<noteq> tg"

definition hostReplaced :: "node \<Rightarrow> target \<Rightarrow> bool" where
  "hostReplaced root tg = list_ex (\<lambda>c. kills (fst c) tg) (candidates root)"

text \<open>
  The shape of a tree: the node types and the children of every node and the kinds of
  the comments of every node that has children; no text, and not the comments of
  literals and JSX texts.
\<close>

fun frame :: "node \<Rightarrow> node" where
  "frame (StringLiteral cs v) = StringLiteral [] []"
| "frame (JSXText cs v) = JSXText [] []"
| "frame (Other cs ty ns) = Other (map (\<lambda>c. Comment (ctype c) []) cs) ty (map frame ns)"

subsection \<open>Auxiliary notions of the proofs\<close>

definition slot :: "node_path \<times> nat \<times> comment \<Rightarrow> node_path \<times> nat" where
  "slot x = (fst x, fst (snd x))"

fun kids :: "node \<Rightarrow> node list" where
  "kids (Other cs ty ns) = ns"
| "kids (StringLiteral cs v) = []"
| "kids (JSXText cs v) = []"

fun own :: "node \<Rightarrow> node" where
  "own (Other cs ty ns) = Other cs ty []"
| "own (StringLiteral cs v) = StringLiteral cs v"
| "own (JSXText cs v) = JSXText cs v"

fun nodeWrite :: "target \<Rightarrow> jsstring \<Rightarrow> node \<Rightarrow> node" where
  "nodeWrite (LiteralAt p) r = (\<lambda>_. stringLiteral r)"
| "nodeWrite (JSXTextAt p) r = (\<lambda>_. jsxText (lit '' '' @ r @ lit '' ''))"
| "nodeWrite (CommentAt p i) r = assignCommentValue i (lit '' '' @ r @ lit '' '')"

definition leafAt :: "target \<Rightarrow> node \<Rightarrow> bool" where
  "leafAt tg root \<longleftrightarrow>
     (replaces tg \<longrightarrow> (case get_node (host tg) root of None \<Rightarrow> True | Some n \<Rightarrow> kids n = []))"

definition alive :: "target set \<Rightarrow> node \<Rightarrow> bool" where
  "alive T root \<longleftrightarrow> (\<forall>tg \<in> T. replaces tg \<longrightarrow> payload tg root \<noteq> None)"

definition applyWrites :: "(target \<times> jsstring) list \<Rightarrow> node \<Rightarrow> node" where
  "applyWrites ws root = fold (\<lambda>(tg, r). callback tg r) ws root"

definition writes :: "promise list \<Rightarrow> nat list \<Rightarrow> (target \<times> jsstring) list" where
  "writes ps order =
     List.map_filter
       (\<lambda>k. if k < length ps then
               (case settled (pend (ps ! k)) of
                  Inr r \<Rightarrow> Some (target (ps ! k), r)
                | Inl e \<Rightarrow> None)
             else None)
       order"

section \<open>Reading the trace\<close>

fun isFind :: "event \<Rightarrow> bool" where
  "isFind (Find kind) = True"
| "isFind e = False"

fun isCreate :: "event \<Rightarrow> bool" where
  "isCreate (Create s) = True"
| "isCreate e = False"

fun isMutate :: "event \<Rightarrow> bool" where
  "isMutate (Mutate tg) = True"
| "isMutate e = False"

text \<open>Every \<open>A\<close> step comes before every \<open>B\<close> step: from the first \<open>B\<close> on there is no \<open>A\<close>.\<close>

definition precedes :: "(event \<Rightarrow> bool) \<Rightarrow> (event \<Rightarrow> bool) \<Rightarrow> event list \<Rightarrow> bool" where
  "precedes A B ev \<longleftrightarrow> \<not> list_ex A (dropWhile (\<lambda>e. \<not> B e) ev)"

text \<open>The lines printed by \<open>console.log\<close>, in order.\<close>

definition consoleLogs :: "event list \<Rightarrow> arg list list" where
  "consoleLogs ev = List.map_filter (\<lambda>e. case e of ConsoleLog a \<Rightarrow> Some a | _ \<Rightarrow> None) ev"

text \<open>\<open>x\<close> occurs in \<open>s\<close> as a contiguous part.\<close>

fun occursIn :: "jsstring \<Rightarrow> jsstring \<Rightarrow> bool" where
  "occursIn x [] = (x = [])"
| "occursIn x (c # s) = (take (length x) (c # s) = x \<or> occursIn x s)"

section \<open>Example inputs\<close>

text \<open>
  Two Japanese words as code units (a greeting, and the word for greeting), a backend
  that times out and one that answers \<open>" Hello "\<close>, and three trees: a program with a
  Japanese comment, a Japanese literal, a Japanese JSX text and an English literal; an
  array whose Japanese literal carries a Japanese line comment, as the parser attaches
  a comment that stands before or after an array element; and the same array with an
  English block comment.
\<close>

definition konnichiwa :: jsstring where
  "konnichiwa = [0x3053, 0x3093, 0x306B, 0x3061, 0x306F]"

definition aisatsu :: jsstring where
  "aisatsu = [0x6328, 0x62F6]"

definition timeout :: "js_error + response" where
  "timeout = Inl (Error (lit ''timeout''))"

definition hello :: "js_error + response" where
  "hello = Inr (Response [Choice (Message (Some (lit '' Hello '')))])"

definition exampleEnv :: "node \<Rightarrow> (js_error + response) \<Rightarrow> env" where
  "exampleEnv root reply =
     \<lparr>parser = (\<lambda>api src. Inr root), toSource = (\<lambda>n. Inr (lit ''printed'')),
      newOpenAI = None, create = (\<lambda>k s. reply), writeFile_error = (\<lambda>f. None)\<rparr>"

definition exampleTree :: node where
  "exampleTree =
     Other [Comment CommentLine (lit '' '' @ aisatsu)] ''Program''
       [StringLiteral [] konnichiwa, JSXText [] konnichiwa, StringLiteral [] (lit ''x'')]"

definition commentedArray :: node where
  "commentedArray =
     Other [] ''ArrayExpression''
       [StringLiteral [Comment CommentLine (lit '' '' @ aisatsu)] konnichiwa]"

definition greetingArray :: node where
  "greetingArray =
     Other [] ''ArrayExpression''
       [StringLiteral [Comment CommentBlock (lit '' greeting '')] konnichiwa]"

text \<open>
  A call under a comment, with a comment on its argument, as in
  \<open>// soto\<close> above \<open>foo(/* uchi */ 1);\<close> with the two words in Japanese (outside, inside):
  the line comment is attached to the statement, the block comment to the argument.
\<close>

definition soto :: jsstring where
  "soto = [0x5916]"

definition uchi :: jsstring where
  "uchi = [0x5185]"

definition nestedComments :: node where
  "nestedComments =
     Other [] ''Program''
       [Other [Comment CommentLine (lit '' '' @ soto)] ''ExpressionStatement''
          [Other [] ''CallExpression''
             [Other [] ''Identifier'' [],
              Other [Comment CommentBlock (lit '' '' @ uchi @ lit '' '')] ''NumericLiteral'' []]]]"

definition exampleFile :: fileInfo where
  "exampleFile = \<lparr>path = lit ''a.tsx'', source = lit ''src''\<rparr>"

definition unparsable :: env where
  "unparsable =
     (exampleEnv exampleTree hello)\<lparr>parser := (\<lambda>api src. Inl (Error (lit ''Unexpected token'')))\<rparr>"

definition noChoice :: "js_error + response" where
  "noChoice = Inr (Response [])"

definition nullContent :: "js_error + response" where
  "nullContent = Inr (Response [Choice (Message None)])"

definition noKey :: env where
  "noKey = (exampleEnv exampleTree hello)\<lparr>newOpenAI := Some (Error (lit ''Missing API key''))\<rparr>"

definition unprintable :: env where
  "unprintable =
     (exampleEnv exampleTree hello)\<lparr>toSource := (\<lambda>n. Inl (Error (lit ''Cannot print'')))\<rparr>"

definition exampleFs :: "jsstring \<rightharpoonup> jsstring" where
  "exampleFs = Map.empty(lit ''a.tsx'' \<mapsto> lit ''src'')"

section \<open>The detector\<close>

lemma japaneseUnit_unat: "japaneseUnit c \<longleftrightarrow> regexRange (unat c)"
  by (simp add: japaneseUnit_def regexRange_def word_le_nat_alt)

lemma high_not_japanese: "isHighSurrogate c \<Longrightarrow> \<not> japaneseUnit c"
  by (auto simp add: japaneseUnit_def isHighSurrogate_def word_le_nat_alt)

lemma low_not_japanese: "isLowSurrogate c \<Longrightarrow> \<not> japaneseUnit c"
  by (auto simp add: japaneseUnit_def isLowSurrogate_def word_le_nat_alt)

lemma astral_not_regexRange: "\<not> regexRange (0x10000 + a * 0x400 + b)"
  by (simp add: regexRange_def)

lemma containsJapanese_regexRange:
  "containsJapanese s \<longleftrightarrow> list_ex regexRange (codePoints s)"
  unfolding containsJapanese_def
proof (induction s rule: codePoints.induct)
  case 1
  show ?case by simp
next
  case (2 c)
  show ?case by (simp add: japaneseUnit_unat)
next
  case (3 h l rest)
  show ?case
  proof (cases "isHighSurrogate h \<and> isLowSurrogate l")
    case True
    then have "list_ex japaneseUnit rest = list_ex regexRange (codePoints rest)"
      using 3 by simp
    with True show ?thesis
      by (simp add: high_not_japanese low_not_japanese astral_not_regexRange)
  next
    case False
    then have A: "list_ex japaneseUnit (l # rest) = list_ex regexRange (codePoints (l # rest))"
      using 3 by simp
    have B: "codePoints (h # l # rest) = unat h # codePoints (l # rest)"
      using False by auto
    have "list_ex japaneseUnit (h # l # rest) = (japaneseUnit h \<or> list_ex japaneseUnit (l # rest))"
      by simp
    also have "\<dots> = (regexRange (unat h) \<or> list_ex regexRange (codePoints (l # rest)))"
      by (simp only: A japaneseUnit_unat)
    also have "\<dots> = list_ex regexRange (codePoints (h # l # rest))"
      by (simp only: B list_ex_Cons_iff)
    finally show ?thesis .
  qed
qed

lemma regexRange_namedBlock:
  assumes "regexRange cp"
  shows "namedBlock cp"
proof -
  have a: "cp \<le> 0xff9f \<Longrightarrow> cp \<le> 0xFFEF" by simp
  have b: "cp \<le> 0x9faf \<Longrightarrow> cp \<le> 0x9FFF" by simp
  from assms a b show ?thesis
    unfolding regexRange_def namedBlock_def by blast
qed

lemma list_ex_regexRange_namedBlock:
  "list_ex regexRange cps \<Longrightarrow> list_ex namedBlock cps"
  by (induction cps) (auto simp add: regexRange_namedBlock)

text \<open>
  C7, as the specification has it: \<open>containsJapanese\<close> is true if and only if the text has
  a code point in one of the named blocks. This fails in one direction. The regular
  expression stops the full-width forms at \<open>U+FF9F\<close> and the common ideographs at
  \<open>U+9FAF\<close>, and it has no range above the basic plane: the full-width yen sign \<open>U+FFE5\<close>,
  the ideograph \<open>U+9FB0\<close> and the Extension B ideograph \<open>U+20000\<close> (the surrogate pair
  \<open>D840 DC00\<close>) lie in the named blocks, and \<open>containsJapanese\<close> is false of each.
\<close>

theorem named_block_missed_counterexample:
  "list_ex namedBlock (codePoints [0xFFE5]) \<and> containsJapanese [0xFFE5] = False \<and>
   list_ex namedBlock (codePoints [0x9FB0]) \<and> containsJapanese [0x9FB0] = False \<and>
   codePoints [0xD840, 0xDC00] = [0x20000] \<and>
   list_ex namedBlock (codePoints [0xD840, 0xDC00]) \<and>
   containsJapanese [0xD840, 0xDC00] = False"
  by (simp add: namedBlock_def containsJapanese_def japaneseUnit_def isHighSurrogate_def
      isLowSurrogate_def)

text \<open>
  C7, amended. \<open>containsJapanese\<close> is a total function of its argument alone, and it is
  true exactly when the text has a code point in \<open>U+3000\<close> to \<open>U+30FF\<close>, \<open>U+3400\<close> to
  \<open>U+4DBF\<close>, \<open>U+4E00\<close> to \<open>U+9FAF\<close> or \<open>U+FF00\<close> to \<open>U+FF9F\<close>: these ranges lie in the basic
  plane and outside the surrogates, so matching code units and matching code points
  agree. The ranges lie inside the named blocks, so a text with no code point in a
  named block is never matched.
\<close>

theorem containsJapanese_iff_code_point:
  "(containsJapanese s \<longleftrightarrow> list_ex regexRange (codePoints s)) \<and>
   (\<not> list_ex namedBlock (codePoints s) \<longrightarrow> containsJapanese s = False)"
  using containsJapanese_regexRange [of s] list_ex_regexRange_namedBlock [of "codePoints s"]
  by blast

theorem containsJapanese_iff_code_point_witness:
  "list_ex regexRange (codePoints konnichiwa) \<and> containsJapanese konnichiwa \<and>
   list_ex namedBlock (codePoints (lit ''hello'')) = False \<and>
   containsJapanese (lit ''hello'') = False"
proof -
  have a: "list_ex regexRange (codePoints konnichiwa)"
    by (simp add: konnichiwa_def regexRange_def isHighSurrogate_def isLowSurrogate_def)
  have b: "list_ex namedBlock (codePoints (lit ''hello'')) = False"
    by (simp add: lit_def namedBlock_def isHighSurrogate_def isLowSurrogate_def)
  from a b containsJapanese_iff_code_point [of konnichiwa]
    containsJapanese_iff_code_point [of "lit ''hello''"]
  show ?thesis by blast
qed

section \<open>Paths, candidates and write-backs\<close>


subsection \<open>Reading and writing through a path\<close>

lemma get_node_update_at_same:
  "get_node p (update_at p f t) = map_option f (get_node p t)"
proof (induction p f t rule: update_at.induct)
  case (1 f n)
  show ?case by simp
next
  case (2 i p f cs ty ns)
  then show ?case by simp
next
  case (3 i p f cs v)
  show ?case by simp
next
  case (4 i p f cs v)
  show ?case by simp
qed

lemma own_update_at_below: "own (update_at (i # q) f t) = own t"
  by (cases t) simp_all

lemma get_node_kids: "kids a = kids b \<Longrightarrow> get_node (i # p) a = get_node (i # p) b"
  by (cases a; cases b) simp_all

lemma get_node_update_at_other:
  "p \<noteq> q \<Longrightarrow> (\<And>n. get_node q t = Some n \<Longrightarrow> kids (f n) = kids n) \<Longrightarrow>
   map_option own (get_node p (update_at q f t)) = map_option own (get_node p t)"
proof (induction q f t arbitrary: p rule: update_at.induct)
  case (1 f n)
  then obtain i p' where p: "p = i # p'" by (cases p) auto
  have "kids (f n) = kids n" using 1(2) by simp
  then show ?case unfolding p by (simp add: get_node_kids [of "f n" n] del: get_node.simps)
next
  case (2 j q f cs ty ns)
  show ?case
  proof (cases p)
    case Nil
    then show ?thesis by simp
  next
    case (Cons i p')
    show ?thesis
    proof (cases "j < length ns")
      case False
      then show ?thesis by simp
    next
      case True
      show ?thesis
      proof (cases "i = j")
        case False
        with True Cons show ?thesis by simp
      next
        case ij: True
        have neq: "p' \<noteq> q" using 2(2) Cons ij by simp
        have "map_option own (get_node p' (update_at q f (ns ! j))) = map_option own (get_node p' (ns ! j))"
          using 2(1) [OF True neq] 2(3) True by simp
        with True Cons ij show ?thesis by simp
      qed
    qed
  qed
next
  case (3 i p f cs v)
  show ?case by simp
next
  case (4 i p f cs v)
  show ?case by simp
qed

subsection \<open>One write-back\<close>

lemma callback_update_at: "callback tg r root = update_at (host tg) (nodeWrite tg r) root"
  by (cases tg) simp_all

lemma kids_assignCommentValue [simp]: "kids (assignCommentValue i v n) = kids n"
  by (cases n) (simp_all add: assignCommentValue_def)

lemma comments_assignCommentValue:
  "comments (assignCommentValue i v n) =
     (if i < length (comments n) then (comments n)[i := Comment (ctype (comments n ! i)) v]
      else comments n)"
  by (cases n) (simp_all add: assignCommentValue_def)

lemma comments_own [simp]: "comments (own n) = comments n"
  by (cases n) simp_all

lemma node_payload_own [simp]: "node_payload tg (own n) = node_payload tg n"
  by (cases tg; cases n) simp_all

lemma payload_own:
  "payload tg root =
     (case map_option own (get_node (host tg) root) of None \<Rightarrow> None | Some n \<Rightarrow> node_payload tg n)"
  by (simp add: payload_def split: option.splits)

lemma comment_at_own:
  "comment_at p i root =
     (case map_option own (get_node p root) of
        None \<Rightarrow> None
      | Some n \<Rightarrow> if i < length (comments n) then Some (comments n ! i) else None)"
  by (simp add: comment_at_def split: option.splits)

lemma own_callback_other:
  assumes "p \<noteq> host tg'" and "leafAt tg' root"
  shows "map_option own (get_node p (callback tg' r root)) = map_option own (get_node p root)"
  unfolding callback_update_at
proof (rule get_node_update_at_other [OF assms(1)])
  fix n assume n: "get_node (host tg') root = Some n"
  show "kids (nodeWrite tg' r n) = kids n"
  proof (cases tg')
    case (LiteralAt q)
    with assms(2) n show ?thesis by (simp add: leafAt_def stringLiteral_def)
  next
    case (JSXTextAt q)
    with assms(2) n show ?thesis by (simp add: leafAt_def jsxText_def)
  next
    case (CommentAt q j)
    then show ?thesis by simp
  qed
qed

lemma node_payload_assign_other:
  "tg \<noteq> CommentAt (host tg) j \<Longrightarrow>
   node_payload tg (assignCommentValue j v n) = node_payload tg n"
  by (cases tg; cases n) (auto simp add: assignCommentValue_def)

lemma payload_callback_other:
  assumes "tg \<noteq> tg'" and "\<not> (replaces tg' \<and> host tg' = host tg)" and "leafAt tg' root"
  shows "payload tg (callback tg' r root) = payload tg root"
proof (cases "host tg = host tg'")
  case False
  then show ?thesis
    using own_callback_other [OF False assms(3), of r] by (simp add: payload_own)
next
  case True
  with assms(2) obtain j where tg': "tg' = CommentAt (host tg) j"
    by (cases tg') auto
  with assms(1) have "tg \<noteq> CommentAt (host tg) j" by simp
  then show ?thesis
    unfolding tg' payload_def
    by (simp add: get_node_update_at_same node_payload_assign_other split: option.splits)
qed

lemma comment_at_callback_other:
  assumes "CommentAt p i \<noteq> tg'" and "\<not> (replaces tg' \<and> host tg' = p)" and "leafAt tg' root"
  shows "comment_at p i (callback tg' r root) = comment_at p i root"
proof (cases "p = host tg'")
  case False
  then show ?thesis
    using own_callback_other [OF False assms(3), of r] by (simp add: comment_at_own)
next
  case True
  with assms(2) obtain j where tg': "tg' = CommentAt p j"
    by (cases tg') auto
  with assms(1) have "i \<noteq> j" by simp
  then show ?thesis
    unfolding tg' comment_at_def
    by (simp add: get_node_update_at_same comments_assignCommentValue split: option.splits)
qed

lemma payload_callback_same:
  assumes "payload tg root = Some v"
  shows "payload tg (callback tg r root) = Some (written tg r)"
proof (cases tg)
  case (LiteralAt p)
  with assms show ?thesis
    by (simp add: payload_def get_node_update_at_same stringLiteral_def split: option.splits)
next
  case (JSXTextAt p)
  with assms show ?thesis
    by (simp add: payload_def get_node_update_at_same jsxText_def split: option.splits)
next
  case (CommentAt p i)
  with assms show ?thesis
    by (auto simp add: payload_def get_node_update_at_same comments_assignCommentValue
        split: option.splits if_splits)
qed

lemma comment_at_callback_same:
  assumes "comment_at p i root = Some c"
  shows "comment_at p i (callback (CommentAt p i) r root) =
         Some (Comment (ctype c) (lit '' '' @ r @ lit '' ''))"
  using assms
  by (auto simp add: comment_at_def get_node_update_at_same comments_assignCommentValue
      split: option.splits if_splits)

lemma payload_leafAt: "payload tg root = Some v \<Longrightarrow> leafAt tg root"
  by (cases tg) (auto simp add: payload_def leafAt_def split: option.splits node.splits elim: node_payload.elims)

subsection \<open>The paths of a tree\<close>

lemma paths_iff_raw:
  "((p, m) \<in> set (paths t) \<longleftrightarrow> get_node p t = Some m)"
  "((p, m) \<in> set (pathsFrom i ns) \<longleftrightarrow>
      (\<exists>j q. p = (i + j) # q \<and> j < length ns \<and> get_node q (ns ! j) = Some m))"
proof (induction t and i ns arbitrary: p m and p m rule: paths_pathsFrom.induct)
  case (1 cs v)
  show ?case by (cases p) auto
next
  case (2 cs v)
  show ?case by (cases p) auto
next
  case (3 cs ty ns)
  show ?case
  proof (cases p)
    case Nil
    then show ?thesis by (auto simp add: 3)
  next
    case (Cons k q)
    then show ?thesis by (auto simp add: 3)
  qed
next
  case (4 i)
  show ?case by simp
next
  case (5 i n ns)
  have "(p, m) \<in> set (pathsFrom i (n # ns)) \<longleftrightarrow>
        (\<exists>q. p = i # q \<and> get_node q n = Some m) \<or>
        (\<exists>j q. p = (Suc i + j) # q \<and> j < length ns \<and> get_node q (ns ! j) = Some m)"
    by (auto simp add: 5)
  also have "\<dots> \<longleftrightarrow> (\<exists>j q. p = (i + j) # q \<and> j < length (n # ns) \<and> get_node q ((n # ns) ! j) = Some m)"
    (is "?L \<longleftrightarrow> ?R")
  proof
    assume ?L
    then show ?R
    proof
      assume "\<exists>q. p = i # q \<and> get_node q n = Some m"
      then obtain q where "p = (i + 0) # q" "get_node q ((n # ns) ! 0) = Some m" by auto
      then show ?R by (intro exI [of _ 0] exI [of _ q]) simp
    next
      assume "\<exists>j q. p = (Suc i + j) # q \<and> j < length ns \<and> get_node q (ns ! j) = Some m"
      then obtain j q where "p = (Suc i + j) # q" "j < length ns" "get_node q (ns ! j) = Some m"
        by auto
      then show ?R by (intro exI [of _ "Suc j"] exI [of _ q]) simp
    qed
  next
    assume ?R
    then obtain j q where jq: "p = (i + j) # q" "j < length (n # ns)"
      "get_node q ((n # ns) ! j) = Some m" by auto
    show ?L
    proof (cases j)
      case 0
      with jq show ?thesis by simp
    next
      case (Suc j')
      with jq have "p = (Suc i + j') # q" "j' < length ns" "get_node q (ns ! j') = Some m"
        by simp_all
      then show ?thesis by blast
    qed
  qed
  finally show ?case .
qed

lemma paths_iff: "(p, m) \<in> set (paths t) \<longleftrightarrow> get_node p t = Some m"
  by (rule paths_iff_raw(1))

lemma distinct_paths_raw:
  "distinct (map fst (paths t))"
  "distinct (map fst (pathsFrom i ns)) \<and> (\<forall>x \<in> set (pathsFrom i ns). \<exists>k q. fst x = k # q \<and> i \<le> k)"
proof (induction t and i ns rule: paths_pathsFrom.induct)
  case (1 cs v)
  show ?case by simp
next
  case (2 cs v)
  show ?case by simp
next
  case (3 cs ty ns)
  then show ?case by (auto simp add: image_iff) 
next
  case (4 i)
  show ?case by simp
next
  case (5 i n ns)
  have m: "map fst (map (\<lambda>(p, m). (i # p, m)) (paths n)) = map ((#) i) (map fst (paths n))"
    by (simp add: case_prod_unfold comp_def)
  have d1: "distinct (map fst (map (\<lambda>(p, m). (i # p, m)) (paths n)))"
    unfolding m using 5(1) by (simp add: distinct_map inj_on_def)
  have disj: "set (map fst (map (\<lambda>(p, m). (i # p, m)) (paths n))) \<inter> set (map fst (pathsFrom (Suc i) ns)) = {}"
  proof -
    { fix x assume a: "x \<in> set (map fst (map (\<lambda>(p, m). (i # p, m)) (paths n)))"
        and b: "x \<in> set (map fst (pathsFrom (Suc i) ns))"
      from a obtain q where "x = i # q" unfolding m by auto
      moreover from b 5(2) obtain k q' where "x = k # q'" "Suc i \<le> k" by fastforce
      ultimately have False by simp }
    then show ?thesis by blast
  qed
  have heads: "\<forall>x \<in> set (pathsFrom i (n # ns)). \<exists>k q. fst x = k # q \<and> i \<le> k"
  proof
    fix x assume "x \<in> set (pathsFrom i (n # ns))"
    then have "x \<in> set (map (\<lambda>(p, m). (i # p, m)) (paths n)) \<or> x \<in> set (pathsFrom (Suc i) ns)"
      by simp
    then consider "x \<in> set (map (\<lambda>(p, m). (i # p, m)) (paths n))" | "x \<in> set (pathsFrom (Suc i) ns)"
      by blast
    then show "\<exists>k q. fst x = k # q \<and> i \<le> k"
    proof cases
      case 1
      then show ?thesis by auto
    next
      case 2
      with 5(2) obtain k q where "fst x = k # q" "Suc i \<le> k" by blast
      then show ?thesis by (intro exI [of _ k] exI [of _ q]) simp
    qed
  qed
  have "distinct (map fst (pathsFrom i (n # ns)))"
    using d1 disj 5(2) by simp
  with heads show ?case by blast
qed

lemma distinct_paths: "distinct (map fst (paths t))"
  by (rule distinct_paths_raw(1))

subsection \<open>The classifier\<close>

lemma set_map_filter:
  "set (List.map_filter f xs) = {y. \<exists>x. x \<in> set xs \<and> f x = Some y}"
  by (induction xs) (auto split: option.splits)

lemma distinct_map_filter_key:
  assumes "distinct (map fst xs)"
    and "\<And>x y. x \<in> set xs \<Longrightarrow> f x = Some y \<Longrightarrow> fst y = g (fst x)"
    and "inj g"
  shows "distinct (map fst (List.map_filter f xs))"
  using assms(1,2)
proof (induction xs)
  case Nil
  show ?case by (simp add: map_filter_simps)
next
  case (Cons x xs)
  have IH: "distinct (map fst (List.map_filter f xs))"
    using Cons by simp
  show ?case
  proof (cases "f x")
    case None
    with IH show ?thesis by (simp add: map_filter_simps)
  next
    case (Some y)
    have "fst y \<notin> fst ` set (List.map_filter f xs)"
    proof
      assume "fst y \<in> fst ` set (List.map_filter f xs)"
      then obtain y' where y': "y' \<in> set (List.map_filter f xs)" "fst y' = fst y" by auto
      then obtain x' where x': "x' \<in> set xs" "f x' = Some y'"
        by (auto simp add: set_map_filter)
      have "g (fst x') = g (fst x)"
        using Cons.prems(2) [of x' y'] Cons.prems(2) [of x y] x' y' Some by simp
      with assms(3) have "fst x' = fst x" by (simp add: inj_eq)
      with x'(1) Cons.prems(1) show False by (simp add: image_iff) metis
    qed
    with IH Some show ?thesis by (simp add: map_filter_simps)
  qed
qed

lemma literalCandidates_iff:
  "(tg, text) \<in> set (literalCandidates root) \<longleftrightarrow>
   (\<exists>p cs. tg = LiteralAt p \<and> get_node p root = Some (StringLiteral cs text) \<and>
      containsJapanese text)"
proof -
  let ?f = "\<lambda>(p, n). case n of
      StringLiteral cs v \<Rightarrow> if containsJapanese v then Some (LiteralAt p, v) else None
    | _ \<Rightarrow> None"
  have f: "?f (p, n) = Some (tg, text) \<longleftrightarrow>
      (\<exists>cs. n = StringLiteral cs text \<and> tg = LiteralAt p \<and> containsJapanese text)" for p n
    by (cases n) auto
  have "(tg, text) \<in> set (literalCandidates root) \<longleftrightarrow>
      (\<exists>p n. (p, n) \<in> set (paths root) \<and> ?f (p, n) = Some (tg, text))"
    unfolding literalCandidates_def set_map_filter by auto
  also have "\<dots> \<longleftrightarrow> (\<exists>p n. get_node p root = Some n \<and>
      (\<exists>cs. n = StringLiteral cs text \<and> tg = LiteralAt p \<and> containsJapanese text))"
    unfolding f paths_iff ..
  also have "\<dots> \<longleftrightarrow> (\<exists>p cs. tg = LiteralAt p \<and>
      get_node p root = Some (StringLiteral cs text) \<and> containsJapanese text)"
    by blast
  finally show ?thesis .
qed

lemma jsxCandidates_iff:
  "(tg, text) \<in> set (jsxCandidates root) \<longleftrightarrow>
   (\<exists>p cs v. tg = JSXTextAt p \<and> get_node p root = Some (JSXText cs v) \<and>
      text = trim v \<and> containsJapanese text)"
proof -
  let ?f = "\<lambda>(p, n). case n of
      JSXText cs v \<Rightarrow> if containsJapanese (trim v) then Some (JSXTextAt p, trim v) else None
    | _ \<Rightarrow> None"
  have f: "?f (p, n) = Some (tg, text) \<longleftrightarrow>
      (\<exists>cs v. n = JSXText cs v \<and> tg = JSXTextAt p \<and> text = trim v \<and> containsJapanese text)"
    for p n
    by (cases n) auto
  have "(tg, text) \<in> set (jsxCandidates root) \<longleftrightarrow>
      (\<exists>p n. (p, n) \<in> set (paths root) \<and> ?f (p, n) = Some (tg, text))"
    unfolding jsxCandidates_def set_map_filter by auto
  also have "\<dots> \<longleftrightarrow> (\<exists>p n. get_node p root = Some n \<and>
      (\<exists>cs v. n = JSXText cs v \<and> tg = JSXTextAt p \<and> text = trim v \<and> containsJapanese text))"
    unfolding f paths_iff ..
  also have "\<dots> \<longleftrightarrow> (\<exists>p cs v. tg = JSXTextAt p \<and> get_node p root = Some (JSXText cs v) \<and>
      text = trim v \<and> containsJapanese text)"
    by blast
  finally show ?thesis .
qed

lemma comment_at_Some:
  "comment_at p i root = Some c \<longleftrightarrow>
   (\<exists>n. get_node p root = Some n \<and> i < length (comments n) \<and> comments n ! i = c)"
  by (cases "get_node p root") (auto simp add: comment_at_def)

lemma own_comments_iff:
  "(p, j, c) \<in> set (map (\<lambda>(i, c). ([], i, c)) (enumerate 0 cs)) \<longleftrightarrow>
   p = [] \<and> j < length cs \<and> cs ! j = c"
  by (auto simp add: in_set_enumerate_eq image_iff)

lemma comment_at_Nil:
  "comment_at [] j n = Some c \<longleftrightarrow> j < length (comments n) \<and> comments n ! j = c"
  by (simp add: comment_at_def)

lemma comment_at_Cons:
  "comment_at (k # q) j n = Some c \<longleftrightarrow>
   (\<exists>cs ty ns. n = Other cs ty ns \<and> k < length ns \<and> comment_at q j (ns ! k) = Some c)"
  by (cases n) (simp_all add: comment_at_def)

lemma commentPaths_iff_raw:
  "((p, j, c) \<in> set (commentPaths t) \<longleftrightarrow> comment_at p j t = Some c)"
  "((p, j, c) \<in> set (commentPathsFrom i ns) \<longleftrightarrow>
      (\<exists>k q. p = (i + k) # q \<and> k < length ns \<and> comment_at q j (ns ! k) = Some c))"
proof (induction t and i ns arbitrary: p j c and p j c rule: commentPaths_commentPathsFrom.induct)
  case (1 cs v)
  show ?case
    unfolding commentPaths.simps own_comments_iff
    by (cases p) (simp_all add: comment_at_Nil comment_at_Cons)
next
  case (2 cs v)
  show ?case
    unfolding commentPaths.simps own_comments_iff
    by (cases p) (simp_all add: comment_at_Nil comment_at_Cons)
next
  case (3 cs ty ns)
  have "(p, j, c) \<in> set (commentPaths (Other cs ty ns)) \<longleftrightarrow>
      (\<exists>k q. p = k # q \<and> k < length ns \<and> comment_at q j (ns ! k) = Some c) \<or>
      (p = [] \<and> j < length cs \<and> cs ! j = c)"
    using 3 [of p j c] own_comments_iff [of p j c cs] by simp
  also have "\<dots> \<longleftrightarrow> comment_at p j (Other cs ty ns) = Some c"
    by (cases p) (auto simp add: comment_at_Nil comment_at_Cons)
  finally show ?case .
next
  case (4 i)
  show ?case by simp
next
  case (5 i n ns)
  have "(p, j, c) \<in> set (commentPathsFrom i (n # ns)) \<longleftrightarrow>
        (\<exists>q. p = i # q \<and> comment_at q j n = Some c) \<or>
        (\<exists>k q. p = (Suc i + k) # q \<and> k < length ns \<and> comment_at q j (ns ! k) = Some c)"
    by (auto simp add: 5)
  also have "\<dots> \<longleftrightarrow>
      (\<exists>k q. p = (i + k) # q \<and> k < length (n # ns) \<and> comment_at q j ((n # ns) ! k) = Some c)"
    (is "?L \<longleftrightarrow> ?R")
  proof
    assume ?L
    then show ?R
    proof
      assume "\<exists>q. p = i # q \<and> comment_at q j n = Some c"
      then obtain q where "p = (i + 0) # q" "comment_at q j ((n # ns) ! 0) = Some c" by auto
      then show ?R by (intro exI [of _ 0] exI [of _ q]) simp
    next
      assume "\<exists>k q. p = (Suc i + k) # q \<and> k < length ns \<and> comment_at q j (ns ! k) = Some c"
      then obtain k q where "p = (Suc i + k) # q" "k < length ns"
        "comment_at q j (ns ! k) = Some c" by auto
      then show ?R by (intro exI [of _ "Suc k"] exI [of _ q]) simp
    qed
  next
    assume ?R
    then obtain k q where kq: "p = (i + k) # q" "k < length (n # ns)"
      "comment_at q j ((n # ns) ! k) = Some c" by auto
    show ?L
    proof (cases k)
      case 0
      with kq show ?thesis by simp
    next
      case (Suc k')
      with kq have "p = (Suc i + k') # q" "k' < length ns" "comment_at q j (ns ! k') = Some c"
        by simp_all
      then show ?thesis by blast
    qed
  qed
  finally show ?case .
qed

lemma commentPaths_iff: "(p, j, c) \<in> set (commentPaths t) \<longleftrightarrow> comment_at p j t = Some c"
  by (rule commentPaths_iff_raw(1))

lemma commentCandidates_iff:
  "(tg, text) \<in> set (commentCandidates root) \<longleftrightarrow>
   (\<exists>p i c. tg = CommentAt p i \<and> comment_at p i root = Some c \<and>
      text = trim (cvalue c) \<and> containsJapanese text)"
proof -
  let ?f = "\<lambda>(p, i, c). if containsJapanese (trim (cvalue c))
      then Some (CommentAt p i, trim (cvalue c)) else None"
  have f: "?f (p, i, c) = Some (tg, text) \<longleftrightarrow>
      (tg = CommentAt p i \<and> text = trim (cvalue c) \<and> containsJapanese text)" for p i c
    by auto
  have "(tg, text) \<in> set (commentCandidates root) \<longleftrightarrow>
      (\<exists>p i c. (p, i, c) \<in> set (commentPaths root) \<and> ?f (p, i, c) = Some (tg, text))"
    unfolding commentCandidates_def set_map_filter by auto
  also have "\<dots> \<longleftrightarrow> (\<exists>p i c. comment_at p i root = Some c \<and>
      (tg = CommentAt p i \<and> text = trim (cvalue c) \<and> containsJapanese text))"
    unfolding f commentPaths_iff ..
  also have "\<dots> \<longleftrightarrow> (\<exists>p i c. tg = CommentAt p i \<and> comment_at p i root = Some c \<and>
      text = trim (cvalue c) \<and> containsJapanese text)"
    by blast
  finally show ?thesis .
qed

lemma payload_LiteralAt:
  "payload (LiteralAt p) root = Some v \<longleftrightarrow> (\<exists>cs. get_node p root = Some (StringLiteral cs v))"
proof (cases "get_node p root")
  case None
  then show ?thesis by (simp add: payload_def)
next
  case (Some n)
  then show ?thesis by (cases n) (simp_all add: payload_def)
qed

lemma payload_JSXTextAt:
  "payload (JSXTextAt p) root = Some v \<longleftrightarrow> (\<exists>cs. get_node p root = Some (JSXText cs v))"
proof (cases "get_node p root")
  case None
  then show ?thesis by (simp add: payload_def)
next
  case (Some n)
  then show ?thesis by (cases n) (simp_all add: payload_def)
qed

lemma payload_CommentAt:
  "payload (CommentAt p i) root = map_option cvalue (comment_at p i root)"
  by (simp add: payload_def comment_at_def split: option.splits)

lemma candidates_iff:
  "(tg, text) \<in> set (candidates root) \<longleftrightarrow>
   (\<exists>v. payload tg root = Some v \<and> text = sent tg v \<and> containsJapanese text)"
proof (cases tg)
  case (LiteralAt p)
  have "(tg, text) \<in> set (candidates root) \<longleftrightarrow> (tg, text) \<in> set (literalCandidates root)"
    unfolding candidates_def using LiteralAt
    by (auto simp add: jsxCandidates_iff commentCandidates_iff)
  then show ?thesis
    using LiteralAt by (auto simp add: literalCandidates_iff payload_LiteralAt)
next
  case (JSXTextAt p)
  have "(tg, text) \<in> set (candidates root) \<longleftrightarrow> (tg, text) \<in> set (jsxCandidates root)"
    unfolding candidates_def using JSXTextAt
    by (auto simp add: literalCandidates_iff commentCandidates_iff)
  then show ?thesis
    using JSXTextAt by (auto simp add: jsxCandidates_iff payload_JSXTextAt)
next
  case (CommentAt p i)
  have "(tg, text) \<in> set (candidates root) \<longleftrightarrow> (tg, text) \<in> set (commentCandidates root)"
    unfolding candidates_def using CommentAt
    by (auto simp add: literalCandidates_iff jsxCandidates_iff)
  then show ?thesis
    using CommentAt by (auto simp add: commentCandidates_iff payload_CommentAt)
qed

lemma distinct_literalCandidates: "distinct (map fst (literalCandidates root))"
  unfolding literalCandidates_def
proof (rule distinct_map_filter_key [where g = LiteralAt])
  show "distinct (map fst (paths root))" by (rule distinct_paths)
  show "inj LiteralAt" by (simp add: inj_def)
next
  fix x y
  assume "(case x of (p, n) \<Rightarrow> case n of
      StringLiteral cs v \<Rightarrow> if containsJapanese v then Some (LiteralAt p, v) else None
    | _ \<Rightarrow> None) = Some y"
  then show "fst y = LiteralAt (fst x)"
    by (cases x) (auto split: node.splits if_splits)
qed

lemma distinct_jsxCandidates: "distinct (map fst (jsxCandidates root))"
  unfolding jsxCandidates_def
proof (rule distinct_map_filter_key [where g = JSXTextAt])
  show "distinct (map fst (paths root))" by (rule distinct_paths)
  show "inj JSXTextAt" by (simp add: inj_def)
next
  fix x y
  assume "(case x of (p, n) \<Rightarrow> case n of
      JSXText cs v \<Rightarrow> if containsJapanese (trim v) then Some (JSXTextAt p, trim v) else None
    | _ \<Rightarrow> None) = Some y"
  then show "fst y = JSXTextAt (fst x)"
    by (cases x) (auto split: node.splits if_splits)
qed

lemma distinct_map_filter_slot:
  assumes "distinct (map kf xs)"
    and "\<And>x y. x \<in> set xs \<Longrightarrow> f x = Some y \<Longrightarrow> fst y = g (kf x)"
    and "inj g"
  shows "distinct (map fst (List.map_filter f xs))"
  using assms(1,2)
proof (induction xs)
  case Nil
  show ?case by (simp add: map_filter_simps)
next
  case (Cons x xs)
  have IH: "distinct (map fst (List.map_filter f xs))"
    using Cons by simp
  show ?case
  proof (cases "f x")
    case None
    with IH show ?thesis by (simp add: map_filter_simps)
  next
    case (Some y)
    have "fst y \<notin> fst ` set (List.map_filter f xs)"
    proof
      assume "fst y \<in> fst ` set (List.map_filter f xs)"
      then obtain y' where y': "y' \<in> set (List.map_filter f xs)" "fst y' = fst y" by auto
      then obtain x' where x': "x' \<in> set xs" "f x' = Some y'"
        by (auto simp add: set_map_filter)
      have "g (kf x') = g (kf x)"
        using Cons.prems(2) [of x' y'] Cons.prems(2) [of x y] x' y' Some by simp
      with assms(3) have "kf x' = kf x" by (simp add: inj_eq)
      with x'(1) Cons.prems(1) show False by (simp add: image_iff) metis
    qed
    with IH Some show ?thesis by (simp add: map_filter_simps)
  qed
qed

lemma distinct_own_comments:
  "distinct (map slot (map (\<lambda>(i, c). ([], i, c)) (enumerate 0 cs)))"
proof -
  have "map slot (map (\<lambda>(i, c). ([], i, c)) (enumerate 0 cs)) =
      map (Pair []) (map fst (enumerate 0 cs))"
    by (simp add: slot_def case_prod_unfold comp_def del: map_fst_enumerate)
  then show ?thesis by (simp add: distinct_map inj_on_def)
qed

lemma distinct_commentPaths_raw:
  "distinct (map slot (commentPaths t))"
  "distinct (map slot (commentPathsFrom i ns)) \<and>
   (\<forall>x \<in> set (commentPathsFrom i ns). \<exists>k q. fst x = k # q \<and> i \<le> k)"
proof (induction t and i ns rule: commentPaths_commentPathsFrom.induct)
  case (1 cs v)
  show ?case unfolding commentPaths.simps by (rule distinct_own_comments)
next
  case (2 cs v)
  show ?case unfolding commentPaths.simps by (rule distinct_own_comments)
next
  case (3 cs ty ns)
  have "slot x \<noteq> slot y"
    if x: "x \<in> set (commentPathsFrom 0 ns)"
      and y: "y \<in> set (map (\<lambda>(i, c). ([], i, c)) (enumerate 0 cs))" for x y
  proof -
    from x 3 obtain k q where "fst x = k # q" by blast
    moreover from y have "fst y = []" by auto
    ultimately show ?thesis by (auto simp add: slot_def)
  qed
  then have "set (map slot (commentPathsFrom 0 ns)) \<inter>
      set (map slot (map (\<lambda>(i, c). ([], i, c)) (enumerate 0 cs))) = {}"
    by (simp only: set_map) blast
  with 3 distinct_own_comments [of cs] show ?case
    unfolding commentPaths.simps by (simp only: map_append distinct_append)
next
  case (4 i)
  show ?case by simp
next
  case (5 i n ns)
  have m: "map slot (map (\<lambda>(p, j, c). (i # p, j, c)) (commentPaths n)) =
      map (\<lambda>(p, j). (i # p, j)) (map slot (commentPaths n))"
    by (simp add: slot_def case_prod_unfold comp_def)
  have inj: "inj_on (\<lambda>(p, j). (i # p, j)) A" for A :: "(node_path \<times> nat) set"
    by (auto simp add: inj_on_def)
  have d1: "distinct (map slot (map (\<lambda>(p, j, c). (i # p, j, c)) (commentPaths n)))"
    unfolding m by (rule iffD2 [OF distinct_map], rule conjI, rule 5(1), rule inj)
  have "slot x \<noteq> slot y"
    if x: "x \<in> set (map (\<lambda>(p, j, c). (i # p, j, c)) (commentPaths n))"
      and y: "y \<in> set (commentPathsFrom (Suc i) ns)" for x y
  proof -
    from x obtain q where "fst x = i # q" by auto
    moreover from y 5(2) obtain k q' where "fst y = k # q'" "Suc i \<le> k" by blast
    ultimately show ?thesis by (auto simp add: slot_def)
  qed
  then have disj: "set (map slot (map (\<lambda>(p, j, c). (i # p, j, c)) (commentPaths n))) \<inter>
      set (map slot (commentPathsFrom (Suc i) ns)) = {}"
    by (simp only: set_map) blast
  have heads: "\<forall>x \<in> set (commentPathsFrom i (n # ns)). \<exists>k q. fst x = k # q \<and> i \<le> k"
  proof
    fix x assume "x \<in> set (commentPathsFrom i (n # ns))"
    then have "x \<in> set (map (\<lambda>(p, j, c). (i # p, j, c)) (commentPaths n)) \<or>
        x \<in> set (commentPathsFrom (Suc i) ns)"
      by simp
    then show "\<exists>k q. fst x = k # q \<and> i \<le> k"
    proof
      assume "x \<in> set (map (\<lambda>(p, j, c). (i # p, j, c)) (commentPaths n))"
      then show ?thesis by auto
    next
      assume "x \<in> set (commentPathsFrom (Suc i) ns)"
      with 5(2) obtain k q where "fst x = k # q" "Suc i \<le> k" by blast
      then show ?thesis by (intro exI [of _ k] exI [of _ q]) simp
    qed
  qed
  have "distinct (map slot (commentPathsFrom i (n # ns)))"
    using d1 disj 5(2) by (simp only: commentPathsFrom.simps map_append distinct_append)
  with heads show ?case by blast
qed

lemma distinct_commentPaths: "distinct (map slot (commentPaths t))"
  by (rule distinct_commentPaths_raw(1))

lemma distinct_commentCandidates: "distinct (map fst (commentCandidates root))"
  unfolding commentCandidates_def
proof (rule distinct_map_filter_slot [where kf = slot and g = "\<lambda>(p, i). CommentAt p i"])
  show "distinct (map slot (commentPaths root))" by (rule distinct_commentPaths)
  show "inj (\<lambda>(p, i). CommentAt p i)" by (auto simp add: inj_def)
next
  fix x y
  assume "(case x of (p, i, c) \<Rightarrow> if containsJapanese (trim (cvalue c))
      then Some (CommentAt p i, trim (cvalue c)) else None) = Some y"
  then show "fst y = (case slot x of (p, i) \<Rightarrow> CommentAt p i)"
    by (cases x) (auto simp add: slot_def split: if_splits)
qed

lemma distinct_candidates: "distinct (map fst (candidates root))"
proof -
  have "fst ` set (literalCandidates root) \<inter> fst ` set (jsxCandidates root) = {}"
    by (auto simp add: literalCandidates_iff jsxCandidates_iff)
  moreover have "fst ` set (literalCandidates root) \<inter> fst ` set (commentCandidates root) = {}"
    by (auto simp add: literalCandidates_iff commentCandidates_iff)
  moreover have "fst ` set (jsxCandidates root) \<inter> fst ` set (commentCandidates root) = {}"
    by (auto simp add: jsxCandidates_iff commentCandidates_iff)
  ultimately show ?thesis
    unfolding candidates_def
    by (simp add: distinct_literalCandidates distinct_jsxCandidates distinct_commentCandidates
        Int_Un_distrib)
qed

subsection \<open>Write-backs in any order\<close>

lemma applyWrites_Nil [simp]: "applyWrites [] root = root"
  by (simp add: applyWrites_def)

lemma applyWrites_Cons [simp]:
  "applyWrites ((tg, r) # ws) root = applyWrites ws (callback tg r root)"
  by (simp add: applyWrites_def)

lemma applyWrites_append [simp]:
  "applyWrites (xs @ ys) root = applyWrites ys (applyWrites xs root)"
  by (simp add: applyWrites_def)

lemma alive_leafAt: "alive T root \<Longrightarrow> tg \<in> T \<Longrightarrow> leafAt tg root"
proof (cases "replaces tg")
  case True
  assume "alive T root" "tg \<in> T"
  with True obtain v where "payload tg root = Some v" by (auto simp add: alive_def)
  then show ?thesis by (rule payload_leafAt)
next
  case False
  then show ?thesis by (simp add: leafAt_def)
qed

lemma payload_two_replaces:
  assumes "replaces tg" "replaces tg'" "host tg = host tg'"
    "payload tg root = Some v" "payload tg' root = Some v'"
  shows "tg = tg'"
  using assms
  by (cases tg; cases tg') (auto simp add: payload_LiteralAt payload_JSXTextAt)

lemma alive_not_kills:
  assumes "alive T root" "tg \<in> T" "tg' \<in> T" "replaces tg"
  shows "\<not> kills tg' tg"
proof
  assume k: "kills tg' tg"
  then have r: "replaces tg'" and h: "host tg' = host tg" and ne: "tg' \<noteq> tg"
    by (simp_all add: kills_def)
  have "payload tg root \<noteq> None" using assms(1,2,4) by (simp add: alive_def)
  moreover have "payload tg' root \<noteq> None" using assms(1,3) r by (simp add: alive_def)
  ultimately obtain v v' where "payload tg root = Some v" "payload tg' root = Some v'"
    by auto
  with assms(4) r h have "tg = tg'" by (intro payload_two_replaces [of tg tg' root v v']) simp_all
  with ne show False by simp
qed

lemma alive_callback:
  assumes "alive T root" "tg' \<in> T"
  shows "alive T (callback tg' r root)"
  unfolding alive_def
proof (intro ballI impI)
  fix tg assume tg: "tg \<in> T" "replaces tg"
  with assms obtain v where v: "payload tg root = Some v" by (auto simp add: alive_def)
  show "payload tg (callback tg' r root) \<noteq> None"
  proof (cases "tg = tg'")
    case True
    with v show ?thesis by (simp add: payload_callback_same)
  next
    case False
    have "\<not> kills tg' tg" using assms tg by (intro alive_not_kills [of T root]) simp_all
    with False have "\<not> (replaces tg' \<and> host tg' = host tg)" by (auto simp add: kills_def)
    with False v alive_leafAt [OF assms] show ?thesis
      by (simp add: payload_callback_other)
  qed
qed

lemma alive_applyWrites:
  "alive T root \<Longrightarrow> fst ` set ws \<subseteq> T \<Longrightarrow> alive T (applyWrites ws root)"
proof (induction ws arbitrary: root)
  case Nil
  then show ?case by simp
next
  case (Cons w ws)
  obtain tg r where w: "w = (tg, r)" by (cases w)
  have "alive T (callback tg r root)" using Cons.prems w by (intro alive_callback) simp_all
  then show ?case using Cons w by simp
qed

lemma payload_applyWrites_other:
  assumes "alive T root" "fst ` set ws \<subseteq> T"
    and "\<And>tg'. tg' \<in> fst ` set ws \<Longrightarrow> tg' \<noteq> tg \<and> \<not> kills tg' tg"
  shows "payload tg (applyWrites ws root) = payload tg root"
  using assms
proof (induction ws arbitrary: root)
  case Nil
  show ?case by simp
next
  case (Cons w ws)
  obtain tg' r where w: "w = (tg', r)" by (cases w)
  have in_T: "tg' \<in> T" using Cons.prems(2) w by simp
  have ne: "tg' \<noteq> tg" "\<not> kills tg' tg" using Cons.prems(3) [of tg'] w by simp_all
  then have nk: "\<not> (replaces tg' \<and> host tg' = host tg)" by (auto simp add: kills_def)
  have a: "alive T (callback tg' r root)" using Cons.prems(1) in_T by (rule alive_callback)
  have "payload tg (applyWrites ws (callback tg' r root)) = payload tg (callback tg' r root)"
    using a Cons.prems(2,3) by (intro Cons.IH) auto
  also have "\<dots> = payload tg root"
    using ne(1) nk alive_leafAt [OF Cons.prems(1) in_T] by (intro payload_callback_other) auto
  finally show ?case using w by simp
qed

lemma comment_at_applyWrites_other:
  assumes "alive T root" "fst ` set ws \<subseteq> T"
    and "\<And>tg'. tg' \<in> fst ` set ws \<Longrightarrow> tg' \<noteq> CommentAt p i \<and> \<not> kills tg' (CommentAt p i)"
  shows "comment_at p i (applyWrites ws root) = comment_at p i root"
  using assms
proof (induction ws arbitrary: root)
  case Nil
  show ?case by simp
next
  case (Cons w ws)
  obtain tg' r where w: "w = (tg', r)" by (cases w)
  have in_T: "tg' \<in> T" using Cons.prems(2) w by simp
  have ne: "tg' \<noteq> CommentAt p i" "\<not> kills tg' (CommentAt p i)"
    using Cons.prems(3) [of tg'] w by simp_all
  then have nk: "\<not> (replaces tg' \<and> host tg' = p)" by (auto simp add: kills_def)
  have a: "alive T (callback tg' r root)" using Cons.prems(1) in_T by (rule alive_callback)
  have "comment_at p i (applyWrites ws (callback tg' r root)) = comment_at p i (callback tg' r root)"
    using a Cons.prems(2,3) by (intro Cons.IH) auto
  also have "\<dots> = comment_at p i root"
    using ne(1) nk alive_leafAt [OF Cons.prems(1) in_T] by (intro comment_at_callback_other) auto
  finally show ?case using w by simp
qed

lemma split_writes:
  assumes "distinct (map fst ws)" "(tg, r) \<in> set ws"
  obtains xs ys where "ws = xs @ (tg, r) # ys" "tg \<notin> fst ` set xs" "tg \<notin> fst ` set ys"
proof -
  from assms(2) obtain xs ys where ws: "ws = xs @ (tg, r) # ys" by (auto simp add: in_set_conv_decomp)
  with assms(1) have "tg \<notin> fst ` set xs" "tg \<notin> fst ` set ys" by auto
  with ws that show thesis by blast
qed

lemma payload_applyWrites_own:
  assumes "alive T root" "fst ` set ws \<subseteq> T" "distinct (map fst ws)" "(tg, r) \<in> set ws"
    and "payload tg root = Some v"
    and "\<And>tg'. tg' \<in> fst ` set ws \<Longrightarrow> \<not> kills tg' tg"
  shows "payload tg (applyWrites ws root) = Some (written tg r)"
proof -
  from assms(3,4) obtain xs ys where ws: "ws = xs @ (tg, r) # ys"
    and nx: "tg \<notin> fst ` set xs" and ny: "tg \<notin> fst ` set ys" by (rule split_writes)
  have sx: "fst ` set xs \<subseteq> T" and sy: "fst ` set ys \<subseteq> T" and tT: "tg \<in> T"
    using assms(2) ws by auto
  have ax: "alive T (applyWrites xs root)" using assms(1) sx by (rule alive_applyWrites)
  have "payload tg (applyWrites xs root) = payload tg root"
    using assms(1) sx
  proof (rule payload_applyWrites_other)
    fix tg' assume a: "tg' \<in> fst ` set xs"
    then have "tg' \<noteq> tg" using nx by blast
    moreover have "tg' \<in> fst ` set ws" using a ws by auto
    ultimately show "tg' \<noteq> tg \<and> \<not> kills tg' tg"
      using assms(6) [of tg'] by simp
  qed
  with assms(5) have "payload tg (applyWrites xs root) = Some v" by simp
  then have "payload tg (callback tg r (applyWrites xs root)) = Some (written tg r)"
    by (rule payload_callback_same)
  moreover have "payload tg (applyWrites ys (callback tg r (applyWrites xs root))) =
      payload tg (callback tg r (applyWrites xs root))"
    using alive_callback [OF ax tT] sy
  proof (rule payload_applyWrites_other)
    fix tg' assume a: "tg' \<in> fst ` set ys"
    then have "tg' \<noteq> tg" using ny by blast
    moreover have "tg' \<in> fst ` set ws" using a ws by auto
    ultimately show "tg' \<noteq> tg \<and> \<not> kills tg' tg"
      using assms(6) [of tg'] by simp
  qed
  ultimately show ?thesis unfolding ws by (simp del: callback.simps)
qed

lemma comment_at_applyWrites_own:
  assumes "alive T root" "fst ` set ws \<subseteq> T" "distinct (map fst ws)"
    and "(CommentAt p i, r) \<in> set ws"
    and "comment_at p i root = Some c"
    and "\<And>tg'. tg' \<in> fst ` set ws \<Longrightarrow> \<not> kills tg' (CommentAt p i)"
  shows "comment_at p i (applyWrites ws root) =
         Some (Comment (ctype c) (lit '' '' @ r @ lit '' ''))"
proof -
  from assms(3,4) obtain xs ys where ws: "ws = xs @ (CommentAt p i, r) # ys"
    and nx: "CommentAt p i \<notin> fst ` set xs" and ny: "CommentAt p i \<notin> fst ` set ys"
    by (rule split_writes)
  have sx: "fst ` set xs \<subseteq> T" and sy: "fst ` set ys \<subseteq> T" and tT: "CommentAt p i \<in> T"
    using assms(2) ws by auto
  have ax: "alive T (applyWrites xs root)" using assms(1) sx by (rule alive_applyWrites)
  have "comment_at p i (applyWrites xs root) = comment_at p i root"
    using assms(1) sx
  proof (rule comment_at_applyWrites_other)
    fix tg' assume a: "tg' \<in> fst ` set xs"
    then have "tg' \<noteq> CommentAt p i" using nx by blast
    moreover have "tg' \<in> fst ` set ws" using a ws by auto
    ultimately show "tg' \<noteq> CommentAt p i \<and> \<not> kills tg' (CommentAt p i)"
      using assms(6) [of tg'] by simp
  qed
  with assms(5) have "comment_at p i (applyWrites xs root) = Some c" by simp
  then have "comment_at p i (callback (CommentAt p i) r (applyWrites xs root)) =
      Some (Comment (ctype c) (lit '' '' @ r @ lit '' ''))"
    by (rule comment_at_callback_same)
  moreover have "comment_at p i (applyWrites ys (callback (CommentAt p i) r (applyWrites xs root))) =
      comment_at p i (callback (CommentAt p i) r (applyWrites xs root))"
    using alive_callback [OF ax tT] sy
  proof (rule comment_at_applyWrites_other)
    fix tg' assume a: "tg' \<in> fst ` set ys"
    then have "tg' \<noteq> CommentAt p i" using ny by blast
    moreover have "tg' \<in> fst ` set ws" using a ws by auto
    ultimately show "tg' \<noteq> CommentAt p i \<and> \<not> kills tg' (CommentAt p i)"
      using assms(6) [of tg'] by simp
  qed
  ultimately show ?thesis unfolding ws by (simp del: callback.simps)
qed

subsection \<open>The promises of a run\<close>

lemma fst_fold_settleOne:
  "fst (fold (settleOne ps) order st) = applyWrites (writes ps order) (fst st)"
proof (induction order arbitrary: st)
  case Nil
  show ?case by (simp add: writes_def)
next
  case (Cons k order)
  have "fst (settleOne ps k st) =
      (if k < length ps then
         (case settled (pend (ps ! k)) of
            Inr r \<Rightarrow> callback (target (ps ! k)) r (fst st) | Inl e \<Rightarrow> fst st)
       else fst st)"
    by (simp add: settleOne_def split: sum.splits)
  then show ?case
    using Cons [of "settleOne ps k st"]
    by (simp add: writes_def split: sum.splits del: callback.simps)
qed

lemma fst_settleAll: "fst (settleAll ps order root) = applyWrites (writes ps order) root"
  by (simp add: settleAll_def fst_fold_settleOne)

lemma length_translationPromises [simp]:
  "length (translationPromises env root dry file) = length (candidates root)"
  by (simp add: translationPromises_def)

lemma nth_translationPromises:
  assumes "k < length (candidates root)" "candidates root ! k = (tg, text)"
  shows "translationPromises env root dry file ! k =
         \<lparr>target = tg, request = text, pend = translateToEnglish env k text dry file\<rparr>"
  using assms by (simp add: translationPromises_def nth_enumerate_eq)

lemma settled_translateToEnglish:
  "isDryRun \<or> newOpenAI env = None \<Longrightarrow>
   settled (translateToEnglish env k text isDryRun file) = Inr (translated env k text isDryRun)"
  by (auto simp add: translateToEnglish_def translated_def split: sum.splits)

lemma writes_translationPromises:
  assumes "dry \<or> newOpenAI env = None" and "set order \<subseteq> {0..<length (candidates root)}"
  shows "writes (translationPromises env root dry file) order =
         map (\<lambda>k. (fst (candidates root ! k), translated env k (snd (candidates root ! k)) dry)) order"
  using assms(2)
proof (induction order)
  case Nil
  show ?case by (simp add: writes_def)
next
  case (Cons k order)
  then have k: "k < length (candidates root)" by simp
  obtain tg s where c: "candidates root ! k = (tg, s)" by (cases "candidates root ! k")
  have "settled (pend (translationPromises env root dry file ! k)) = Inr (translated env k s dry)"
    using nth_translationPromises [OF k c] settled_translateToEnglish [OF assms(1)] by simp
  moreover have "target (translationPromises env root dry file ! k) = tg"
    using nth_translationPromises [OF k c] by simp
  moreover have "writes (translationPromises env root dry file) order =
      map (\<lambda>k. (fst (candidates root ! k), translated env k (snd (candidates root ! k)) dry)) order"
    using Cons by simp
  ultimately show ?case using k c by (simp add: writes_def)
qed

lemma settleOrder_schedule:
  assumes "dryRun options \<or> schedule (length (candidates root)) sched"
  shows "schedule (length (candidates root))
           (settleOrder options sched (translationPromises env root dry file))"
  using assms by (auto simp add: settleOrder_def schedule_def)

lemma translatedTree_writes:
  assumes "dryRun options \<or> newOpenAI env = None"
    and "dryRun options \<or> schedule (length (candidates root)) sched"
  obtains order where
    "schedule (length (candidates root)) order"
    "translatedTree env sched root options file =
       applyWrites (map (\<lambda>k. (fst (candidates root ! k),
          translated env k (snd (candidates root ! k)) (dryRun options))) order) root"
proof -
  let ?ps = "translationPromises env root (dryRun options) file"
  let ?order = "settleOrder options sched ?ps"
  have p: "schedule (length (candidates root)) ?order"
    using assms(2) by (rule settleOrder_schedule)
  then have "set ?order \<subseteq> {0..<length (candidates root)}"
    by (simp add: schedule_def)
  then have "writes ?ps ?order =
      map (\<lambda>k. (fst (candidates root ! k),
          translated env k (snd (candidates root ! k)) (dryRun options))) ?order"
    using assms(1) by (intro writes_translationPromises) simp_all
  then have "translatedTree env sched root options file =
       applyWrites (map (\<lambda>k. (fst (candidates root ! k),
          translated env k (snd (candidates root ! k)) (dryRun options))) ?order) root"
    by (simp add: translatedTree_def fst_settleAll Let_def)
  with p that show thesis by blast
qed

lemma alive_targets: "alive (targets root) root"
  unfolding alive_def targets_def
proof (intro ballI impI)
  fix tg assume "tg \<in> fst ` set (candidates root)"
  then obtain s where "(tg, s) \<in> set (candidates root)" by auto
  then show "payload tg root \<noteq> None" by (auto simp add: candidates_iff)
qed

lemma schedule_writes_facts:
  fixes g :: "nat \<Rightarrow> jsstring \<Rightarrow> jsstring"
  assumes "schedule (length (candidates root)) order"
  defines "ws \<equiv> map (\<lambda>k. (fst (candidates root ! k), g k (snd (candidates root ! k)))) order"
  shows "fst ` set ws = targets root"
    and "distinct (map fst ws)"
    and "k < length (candidates root) \<Longrightarrow> candidates root ! k = (tg, s) \<Longrightarrow> (tg, g k s) \<in> set ws"
proof -
  have so: "set order = {0..<length (candidates root)}"
    using assms(1) by (simp add: schedule_def)
  have do: "distinct order"
    using assms(1) by (simp add: schedule_def)
  have "fst ` set ws = (\<lambda>k. fst (candidates root ! k)) ` {0..<length (candidates root)}"
    unfolding ws_def using so by (simp add: image_image)
  also have "\<dots> = fst ` set (candidates root)"
  proof -
    have "set (candidates root) = (\<lambda>k. candidates root ! k) ` {0..<length (candidates root)}"
      by (auto simp add: set_conv_nth)
    then show ?thesis by (simp add: image_image)
  qed
  finally show "fst ` set ws = targets root" by (simp add: targets_def)
  have "map fst ws = map (\<lambda>k. fst (candidates root ! k)) order"
    unfolding ws_def by (simp add: comp_def)
  also have "\<dots> = map (\<lambda>k. map fst (candidates root) ! k) order"
    using so by (intro map_cong refl) simp
  finally have "map fst ws = map (\<lambda>k. map fst (candidates root) ! k) order" .
  moreover have "distinct (map (\<lambda>k. map fst (candidates root) ! k) order)"
  proof -
    have "inj_on (\<lambda>k. map fst (candidates root) ! k) (set order)"
    proof (rule inj_onI)
      fix x y
      assume "x \<in> set order" "y \<in> set order"
        and e: "map fst (candidates root) ! x = map fst (candidates root) ! y"
      then have "x < length (map fst (candidates root))" "y < length (map fst (candidates root))"
        using so by simp_all
      with e show "x = y"
        using distinct_candidates [of root] by (simp only: nth_eq_iff_index_eq)
    qed
    with do show ?thesis by (simp add: distinct_map)
  qed
  ultimately show "distinct (map fst ws)" by simp
  show "(tg, g k s) \<in> set ws"
    if "k < length (candidates root)" "candidates root ! k = (tg, s)"
  proof -
    have "k \<in> set order" using that(1) so by simp
    then have "(fst (candidates root ! k), g k (snd (candidates root ! k))) \<in> set ws"
      unfolding ws_def by simp
    with that(2) show ?thesis by simp
  qed
qed

subsection \<open>The tree that is printed\<close>

lemma hostReplaced_iff: "hostReplaced root tg \<longleftrightarrow> (\<exists>tg' \<in> targets root. kills tg' tg)"
  by (auto simp add: hostReplaced_def targets_def list_ex_iff)

lemma candidate_not_hostReplaced:
  assumes "tg \<in> targets root" "replaces tg"
  shows "\<not> hostReplaced root tg"
  using alive_not_kills [OF alive_targets assms(1) _ assms(2)]
  by (auto simp add: hostReplaced_iff)

lemma payload_not_hostReplaced:
  assumes "payload tg root = Some v" "replaces tg"
  shows "\<not> hostReplaced root tg"
proof
  assume "hostReplaced root tg"
  then obtain tg' where t: "tg' \<in> targets root" and k: "kills tg' tg"
    by (auto simp add: hostReplaced_iff)
  from t obtain v' where "payload tg' root = Some v'"
    by (auto simp add: targets_def candidates_iff)
  with assms k have "tg' = tg"
    by (intro payload_two_replaces [of tg' tg root v' v]) (simp_all add: kills_def)
  with k show False by (simp add: kills_def)
qed

lemma translatedTree_candidate:
  assumes "dryRun options \<or> newOpenAI env = None"
    and "dryRun options \<or> schedule (length (candidates root)) sched"
    and "k < length (candidates root)" and "candidates root ! k = (tg, s)"
    and "\<not> hostReplaced root tg"
  shows "payload tg (translatedTree env sched root options file) =
         Some (written tg (translated env k s (dryRun options)))"
proof -
  from assms(1,2) obtain order where o: "schedule (length (candidates root)) order"
    and t: "translatedTree env sched root options file =
       applyWrites (map (\<lambda>k. (fst (candidates root ! k),
          translated env k (snd (candidates root ! k)) (dryRun options))) order) root"
    by (rule translatedTree_writes)
  let ?g = "\<lambda>k s. translated env k s (dryRun options)"
  let ?ws = "map (\<lambda>k. (fst (candidates root ! k), ?g k (snd (candidates root ! k)))) order"
  note f = schedule_writes_facts [OF o, where g = ?g]
  have "(tg, s) \<in> set (candidates root)" using assms(3,4) by (metis nth_mem)
  then obtain v where v: "payload tg root = Some v" by (auto simp add: candidates_iff)
  have "payload tg (applyWrites ?ws root) = Some (written tg (?g k s))"
  proof (rule payload_applyWrites_own [OF alive_targets _ f(2) f(3) v])
    show "fst ` set ?ws \<subseteq> targets root" using f(1) by simp
    show "k < length (candidates root)" by (rule assms(3))
    show "candidates root ! k = (tg, s)" by (rule assms(4))
    fix tg' assume "tg' \<in> fst ` set ?ws"
    then have "tg' \<in> targets root" using f(1) by simp
    with assms(5) show "\<not> kills tg' tg" by (auto simp add: hostReplaced_iff)
  qed
  with t show ?thesis by simp
qed

lemma translatedTree_comment:
  assumes "dryRun options \<or> newOpenAI env = None"
    and "dryRun options \<or> schedule (length (candidates root)) sched"
    and "k < length (candidates root)" and "candidates root ! k = (CommentAt p i, s)"
    and "\<not> hostReplaced root (CommentAt p i)"
    and "comment_at p i root = Some c"
  shows "comment_at p i (translatedTree env sched root options file) =
         Some (Comment (ctype c) (lit '' '' @ translated env k s (dryRun options) @ lit '' ''))"
proof -
  from assms(1,2) obtain order where o: "schedule (length (candidates root)) order"
    and t: "translatedTree env sched root options file =
       applyWrites (map (\<lambda>k. (fst (candidates root ! k),
          translated env k (snd (candidates root ! k)) (dryRun options))) order) root"
    by (rule translatedTree_writes)
  let ?g = "\<lambda>k s. translated env k s (dryRun options)"
  let ?ws = "map (\<lambda>k. (fst (candidates root ! k), ?g k (snd (candidates root ! k)))) order"
  note f = schedule_writes_facts [OF o, where g = ?g]
  have "comment_at p i (applyWrites ?ws root) =
      Some (Comment (ctype c) (lit '' '' @ ?g k s @ lit '' ''))"
  proof (rule comment_at_applyWrites_own [OF alive_targets _ f(2) f(3) assms(6)])
    show "fst ` set ?ws \<subseteq> targets root" using f(1) by simp
    show "k < length (candidates root)" by (rule assms(3))
    show "candidates root ! k = (CommentAt p i, s)" by (rule assms(4))
    fix tg' assume "tg' \<in> fst ` set ?ws"
    then have "tg' \<in> targets root" using f(1) by simp
    with assms(5) show "\<not> kills tg' (CommentAt p i)" by (auto simp add: hostReplaced_iff)
  qed
  with t show ?thesis by simp
qed

lemma translatedTree_other:
  assumes "dryRun options \<or> newOpenAI env = None"
    and "dryRun options \<or> schedule (length (candidates root)) sched"
    and "tg \<notin> targets root" and "\<not> hostReplaced root tg"
  shows "payload tg (translatedTree env sched root options file) = payload tg root"
proof -
  from assms(1,2) obtain order where o: "schedule (length (candidates root)) order"
    and t: "translatedTree env sched root options file =
       applyWrites (map (\<lambda>k. (fst (candidates root ! k),
          translated env k (snd (candidates root ! k)) (dryRun options))) order) root"
    by (rule translatedTree_writes)
  let ?g = "\<lambda>k s. translated env k s (dryRun options)"
  let ?ws = "map (\<lambda>k. (fst (candidates root ! k), ?g k (snd (candidates root ! k)))) order"
  note f = schedule_writes_facts [OF o, where g = ?g]
  have "payload tg (applyWrites ?ws root) = payload tg root"
  proof (rule payload_applyWrites_other [OF alive_targets])
    show "fst ` set ?ws \<subseteq> targets root" using f(1) by simp
    fix tg' assume "tg' \<in> fst ` set ?ws"
    then have "tg' \<in> targets root" using f(1) by simp
    with assms(3,4) show "tg' \<noteq> tg \<and> \<not> kills tg' tg" by (auto simp add: hostReplaced_iff)
  qed
  with t show ?thesis by simp
qed

lemma translatedTree_other_comment:
  assumes "dryRun options \<or> newOpenAI env = None"
    and "dryRun options \<or> schedule (length (candidates root)) sched"
    and "CommentAt p i \<notin> targets root" and "\<not> hostReplaced root (CommentAt p i)"
  shows "comment_at p i (translatedTree env sched root options file) = comment_at p i root"
proof -
  from assms(1,2) obtain order where o: "schedule (length (candidates root)) order"
    and t: "translatedTree env sched root options file =
       applyWrites (map (\<lambda>k. (fst (candidates root ! k),
          translated env k (snd (candidates root ! k)) (dryRun options))) order) root"
    by (rule translatedTree_writes)
  let ?g = "\<lambda>k s. translated env k s (dryRun options)"
  let ?ws = "map (\<lambda>k. (fst (candidates root ! k), ?g k (snd (candidates root ! k)))) order"
  note f = schedule_writes_facts [OF o, where g = ?g]
  have "comment_at p i (applyWrites ?ws root) = comment_at p i root"
  proof (rule comment_at_applyWrites_other [OF alive_targets])
    show "fst ` set ?ws \<subseteq> targets root" using f(1) by simp
    fix tg' assume "tg' \<in> fst ` set ?ws"
    then have "tg' \<in> targets root" using f(1) by simp
    with assms(3,4) show "tg' \<noteq> CommentAt p i \<and> \<not> kills tg' (CommentAt p i)"
      by (auto simp add: hostReplaced_iff)
  qed
  with t show ?thesis by simp
qed

lemma get_node_frame: "get_node p (frame t) = map_option frame (get_node p t)"
  by (induction p t rule: get_node.induct) simp_all

lemma frame_update_at:
  "(\<And>n. get_node q t = Some n \<Longrightarrow> frame (f n) = frame n) \<Longrightarrow> frame (update_at q f t) = frame t"
proof (induction q f t rule: update_at.induct)
  case (1 f n)
  then show ?case by simp
next
  case (2 i p f cs ty ns)
  show ?case
  proof (cases "i < length ns")
    case True
    have "frame (update_at p f (ns ! i)) = frame (ns ! i)"
      using 2(1) [OF True] 2(2) True by simp
    then have "(map frame ns)[i := frame (update_at p f (ns ! i))] = map frame ns"
      using True by (simp add: list_update_same_conv)
    with True show ?thesis by (simp add: map_update)
  next
    case False
    then show ?thesis by simp
  qed
next
  case (3 i p f cs v)
  show ?case by simp
next
  case (4 i p f cs v)
  show ?case by simp
qed

lemma frame_assignCommentValue: "frame (assignCommentValue i v n) = frame n"
  by (cases n) (auto simp add: assignCommentValue_def map_update list_update_same_conv)

lemma frame_callback:
  assumes "alive T root" "tg \<in> T"
  shows "frame (callback tg r root) = frame root"
  unfolding callback_update_at
proof (rule frame_update_at)
  fix n assume n: "get_node (host tg) root = Some n"
  show "frame (nodeWrite tg r n) = frame n"
  proof (cases tg)
    case (LiteralAt p)
    with assms obtain v where "payload (LiteralAt p) root = Some v" by (auto simp add: alive_def)
    with n LiteralAt show ?thesis by (auto simp add: payload_LiteralAt stringLiteral_def)
  next
    case (JSXTextAt p)
    with assms obtain v where "payload (JSXTextAt p) root = Some v" by (auto simp add: alive_def)
    with n JSXTextAt show ?thesis by (auto simp add: payload_JSXTextAt jsxText_def)
  next
    case (CommentAt p i)
    then show ?thesis by (simp add: frame_assignCommentValue)
  qed
qed

lemma frame_applyWrites:
  "alive T root \<Longrightarrow> fst ` set ws \<subseteq> T \<Longrightarrow> frame (applyWrites ws root) = frame root"
proof (induction ws arbitrary: root)
  case Nil
  show ?case by simp
next
  case (Cons w ws)
  obtain tg r where w: "w = (tg, r)" by (cases w)
  have tT: "tg \<in> T" using Cons.prems(2) w by simp
  have "frame (applyWrites ws (callback tg r root)) = frame (callback tg r root)"
    using alive_callback [OF Cons.prems(1) tT] Cons.prems(2) by (intro Cons.IH) auto
  also have "\<dots> = frame root" using Cons.prems(1) tT by (rule frame_callback)
  finally show ?case using w by simp
qed

lemma frame_translatedTree:
  assumes "dryRun options \<or> newOpenAI env = None"
    and "dryRun options \<or> schedule (length (candidates root)) sched"
  shows "frame (translatedTree env sched root options file) = frame root"
proof -
  from assms(1,2) obtain order where o: "schedule (length (candidates root)) order"
    and t: "translatedTree env sched root options file =
       applyWrites (map (\<lambda>k. (fst (candidates root ! k),
          translated env k (snd (candidates root ! k)) (dryRun options))) order) root"
    by (rule translatedTree_writes)
  let ?g = "\<lambda>k s. translated env k s (dryRun options)"
  let ?ws = "map (\<lambda>k. (fst (candidates root ! k), ?g k (snd (candidates root ! k)))) order"
  note f = schedule_writes_facts [OF o, where g = ?g]
  have "fst ` set ?ws \<subseteq> targets root" using f(1) by simp
  with alive_targets have "frame (applyWrites ?ws root) = frame root"
    by (rule frame_applyWrites)
  with t show ?thesis by simp
qed

subsection \<open>Trimming\<close>

lemma dropWhile_keeps_last:
  "xs \<noteq> [] \<Longrightarrow> \<not> P (last xs) \<Longrightarrow> dropWhile P xs \<noteq> [] \<and> last (dropWhile P xs) = last xs"
  by (induction xs) (auto split: if_splits)

lemma trimmed_trim: "trimmed (trim s)"
proof (cases "dropWhile isWhiteSpace s = []")
  case True
  have "trim s = []" unfolding trim_def True by simp
  then show ?thesis by (simp add: trimmed_def)
next
  case False
  let ?d = "dropWhile isWhiteSpace s"
  let ?e = "dropWhile isWhiteSpace (rev ?d)"
  have hd_d: "\<not> isWhiteSpace (hd ?d)" using False by (rule hd_dropWhile)
  have "rev ?d \<noteq> []" "\<not> isWhiteSpace (last (rev ?d))"
    using False hd_d by (simp_all add: last_rev)
  then have e: "?e \<noteq> []" "last ?e = last (rev ?d)"
    using dropWhile_keeps_last [of "rev ?d" isWhiteSpace] by simp_all
  have "\<not> isWhiteSpace (hd ?e)" using e(1) by (rule hd_dropWhile)
  moreover have "\<not> isWhiteSpace (last ?e)" using e(2) hd_d False by (simp add: last_rev)
  ultimately show ?thesis
    using e(1) by (simp add: trim_def trimmed_def hd_rev last_rev)
qed

lemma trim_trimmed: "trimmed s \<Longrightarrow> trim s = s"
proof (cases "s = []")
  case True
  then show ?thesis by (simp add: trim_def)
next
  case False
  assume "trimmed s"
  with False have h: "\<not> isWhiteSpace (hd s)" and l: "\<not> isWhiteSpace (last s)"
    by (simp_all add: trimmed_def)
  have "dropWhile isWhiteSpace s = s" using h by (simp add: dropWhile_eq_self_iff)
  moreover have "dropWhile isWhiteSpace (rev s) = rev s"
    using l False by (simp add: dropWhile_eq_self_iff hd_rev)
  ultimately show ?thesis by (simp add: trim_def)
qed

lemma trim_idem: "trim (trim s) = trim s"
  by (rule trim_trimmed) (rule trimmed_trim)

lemma trim_append_left:
  "(\<And>c. c \<in> set a \<Longrightarrow> isWhiteSpace c) \<Longrightarrow> trim (a @ s) = trim s"
  by (simp add: trim_def dropWhile_append2)

lemma trim_append_right:
  assumes "\<And>c. c \<in> set b \<Longrightarrow> isWhiteSpace c"
  shows "trim (s @ b) = trim s"
proof (cases "\<forall>c \<in> set s. isWhiteSpace c")
  case True
  then have d: "dropWhile isWhiteSpace (s @ b) = []" "dropWhile isWhiteSpace s = []"
    using assms by auto
  show ?thesis unfolding trim_def d ..
next
  case False
  then obtain c where "c \<in> set s" "\<not> isWhiteSpace c" by blast
  then have "dropWhile isWhiteSpace (s @ b) = dropWhile isWhiteSpace s @ b"
    by (rule dropWhile_append1)
  moreover have "dropWhile isWhiteSpace (rev b @ rev (dropWhile isWhiteSpace s)) =
      dropWhile isWhiteSpace (rev (dropWhile isWhiteSpace s))"
    using assms by (intro dropWhile_append2) simp
  ultimately show ?thesis by (simp add: trim_def)
qed

lemma isWhiteSpace_space: "c \<in> set (lit '' '') \<Longrightarrow> isWhiteSpace c"
  by (simp add: lit_def isWhiteSpace_def)

lemma trim_padded: "trim (lit '' '' @ r @ lit '' '') = trim r"
proof -
  have "trim (lit '' '' @ (r @ lit '' '')) = trim (r @ lit '' '')"
    by (rule trim_append_left) (rule isWhiteSpace_space)
  also have "\<dots> = trim r"
    by (rule trim_append_right) (rule isWhiteSpace_space)
  finally show ?thesis by simp
qed

lemma trimmed_dryRunMarker: "trimmed (dryRunMarker s)"
  by (simp add: trimmed_def dryRunMarker_def lit_def dq_def isWhiteSpace_def)

lemma trimmed_firstContent: "firstContent r = Inr s \<Longrightarrow> trimmed s"
  by (auto simp add: firstContent_def trimmed_trim split: list.splits option.splits)

lemma trimmed_translated:
  assumes "trimmed s"
  shows "trimmed (translated env k s dry)"
proof (cases dry)
  case True
  then show ?thesis by (simp add: translated_def trimmed_dryRunMarker)
next
  case False
  show ?thesis
  proof (cases "completion env k s")
    case (Inl e)
    with False assms show ?thesis by (simp add: translated_def)
  next
    case (Inr t)
    then have "trimmed t"
      by (auto simp add: completion_def trimmed_firstContent split: sum.splits)
    with False Inr show ?thesis by (simp add: translated_def)
  qed
qed

subsection \<open>The candidates of the examples\<close>

lemma candidates_exampleTree:
  "candidates exampleTree =
     [(LiteralAt [0], konnichiwa), (JSXTextAt [1], konnichiwa), (CommentAt [] 0, aisatsu)]"
  by (simp add: candidates_def literalCandidates_def jsxCandidates_def commentCandidates_def
      exampleTree_def konnichiwa_def aisatsu_def lit_def containsJapanese_def japaneseUnit_def
      trim_def isWhiteSpace_def enumerate_eq_zip)

lemma kinds_exampleTree:
  "literalCandidates exampleTree = [(LiteralAt [0], konnichiwa)]"
  "jsxCandidates exampleTree = [(JSXTextAt [1], konnichiwa)]"
  "commentCandidates exampleTree = [(CommentAt [] 0, aisatsu)]"
  by (simp_all add: literalCandidates_def jsxCandidates_def commentCandidates_def
      exampleTree_def konnichiwa_def aisatsu_def lit_def containsJapanese_def japaneseUnit_def
      trim_def isWhiteSpace_def enumerate_eq_zip)

lemma candidates_commentedArray:
  "candidates commentedArray = [(LiteralAt [0], konnichiwa), (CommentAt [0] 0, aisatsu)]"
  by (simp add: candidates_def literalCandidates_def jsxCandidates_def commentCandidates_def
      commentedArray_def konnichiwa_def aisatsu_def lit_def containsJapanese_def japaneseUnit_def
      trim_def isWhiteSpace_def enumerate_eq_zip)

lemma candidates_greetingArray:
  "candidates greetingArray = [(LiteralAt [0], konnichiwa)]"
  by (simp add: candidates_def literalCandidates_def jsxCandidates_def commentCandidates_def
      greetingArray_def konnichiwa_def lit_def containsJapanese_def japaneseUnit_def
      trim_def isWhiteSpace_def enumerate_eq_zip)

lemma candidates_nestedComments:
  "candidates nestedComments = [(CommentAt [0, 0, 1] 0, uchi), (CommentAt [0] 0, soto)]"
  by (simp add: candidates_def literalCandidates_def jsxCandidates_def commentCandidates_def
      nestedComments_def soto_def uchi_def lit_def containsJapanese_def japaneseUnit_def
      trim_def isWhiteSpace_def enumerate_eq_zip)

section \<open>Failures\<close>

lemma completion_cases:
  "completion env k s = Inl e \<longleftrightarrow>
     create env k s = Inl e \<or>
     (\<exists>r. create env k s = Inr r \<and> firstContent r = Inl e)"
  by (cases "create env k s") (simp_all add: completion_def)

lemma firstContent_malformed:
  "firstContent (Response []) = Inl (Error (lit ''TypeError: choices[0] is undefined''))"
  "firstContent (Response (Choice (Message None) # others)) =
     Inl (Error (lit ''TypeError: content is null''))"
  by (simp_all add: firstContent_def)

text \<open>
  C3. Whenever the backend call of \<open>translateToEnglish\<close> fails, that is, \<open>create\<close> throws
  (a timeout, a transport error) or its response is malformed (it has no first choice,
  or the content of the first choice is \<open>null\<close>, so that reading it throws), then for
  every text, call and file name the promise is resolved, not rejected, with the text
  it was given, and one line goes to \<open>console.error\<close> that quotes the text and the file
  name, together with the error caught; the error of a failed \<open>create\<close> is the one
  logged. The backend is called outside a dry run only, and once the client has been
  constructed.
\<close>

theorem translateToEnglish_backend_failure:
  assumes "newOpenAI env = None"
    and "(\<exists>e. create env k text = Inl e) \<or>
         create env k text = Inr (Response []) \<or>
         (\<exists>others. create env k text = Inr (Response (Choice (Message None) # others)))"
  shows "\<exists>error.
     translateToEnglish env k text False fileName =
       \<lparr>at_call = [Create text],
        at_settle =
          [ConsoleError
             [Str (lit ''Translation failed for text: '' @ dq @ text @ dq @
                   lit '' in file: '' @ dq @ fileName @ dq),
              Err error]],
        settled = Inr text\<rparr> \<and>
     (\<forall>e. create env k text = Inl e \<longrightarrow> error = e)"
proof -
  from assms(2) obtain error where error: "completion env k text = Inl error"
    and same: "\<forall>e. create env k text = Inl e \<longrightarrow> error = e"
    by (auto simp add: completion_def firstContent_def)
  from assms(1) error have "translateToEnglish env k text False fileName =
       \<lparr>at_call = [Create text],
        at_settle =
          [ConsoleError
             [Str (lit ''Translation failed for text: '' @ dq @ text @ dq @
                   lit '' in file: '' @ dq @ fileName @ dq),
              Err error]],
        settled = Inr text\<rparr>"
    by (simp add: translateToEnglish_def failureLine_def)
  with same show ?thesis by blast
qed

theorem translateToEnglish_backend_failure_witness:
  "translateToEnglish (exampleEnv exampleTree timeout) 0 konnichiwa False (lit ''a.tsx'') =
     \<lparr>at_call = [Create konnichiwa],
      at_settle =
        [ConsoleError
           [Str (lit ''Translation failed for text: '' @ dq @ konnichiwa @ dq @
                 lit '' in file: '' @ dq @ lit ''a.tsx'' @ dq),
            Err (Error (lit ''timeout''))]],
      settled = Inr konnichiwa\<rparr> \<and>
   settled (translateToEnglish (exampleEnv exampleTree noChoice) 0 konnichiwa False
              (lit ''a.tsx'')) = Inr konnichiwa \<and>
   settled (translateToEnglish (exampleEnv exampleTree nullContent) 0 konnichiwa False
              (lit ''a.tsx'')) = Inr konnichiwa"
proof -
  have a: "newOpenAI (exampleEnv exampleTree reply) = None" for reply
    by (simp add: exampleEnv_def)
  have t: "create (exampleEnv exampleTree timeout) 0 konnichiwa = Inl (Error (lit ''timeout''))"
    by (simp add: exampleEnv_def timeout_def)
  have n: "create (exampleEnv exampleTree noChoice) 0 konnichiwa = Inr (Response [])"
    by (simp add: exampleEnv_def noChoice_def)
  have c: "create (exampleEnv exampleTree nullContent) 0 konnichiwa =
      Inr (Response (Choice (Message None) # []))"
    by (simp add: exampleEnv_def nullContent_def)
  from translateToEnglish_backend_failure
    [of "exampleEnv exampleTree timeout" 0 konnichiwa "lit ''a.tsx''", OF a] t
  have 1: "translateToEnglish (exampleEnv exampleTree timeout) 0 konnichiwa False (lit ''a.tsx'') =
     \<lparr>at_call = [Create konnichiwa],
      at_settle =
        [ConsoleError
           [Str (lit ''Translation failed for text: '' @ dq @ konnichiwa @ dq @
                 lit '' in file: '' @ dq @ lit ''a.tsx'' @ dq),
            Err (Error (lit ''timeout''))]],
      settled = Inr konnichiwa\<rparr>"
    by auto
  from translateToEnglish_backend_failure
    [of "exampleEnv exampleTree noChoice" 0 konnichiwa "lit ''a.tsx''", OF a] n
  have 2: "settled (translateToEnglish (exampleEnv exampleTree noChoice) 0 konnichiwa False
              (lit ''a.tsx'')) = Inr konnichiwa"
    by auto
  from translateToEnglish_backend_failure
    [of "exampleEnv exampleTree nullContent" 0 konnichiwa "lit ''a.tsx''", OF a] c
  have 3: "settled (translateToEnglish (exampleEnv exampleTree nullContent) 0 konnichiwa False
              (lit ''a.tsx'')) = Inr konnichiwa"
    by auto
  from 1 2 3 show ?thesis by (intro conjI)
qed

lemma rejection_None:
  assumes "dry \<or> newOpenAI env = None"
  shows "rejection (translationPromises env root dry file) = None"
proof -
  have "List.map_filter (\<lambda>p. case settled (pend p) of Inl e \<Rightarrow> Some e | Inr _ \<Rightarrow> None)
      (translationPromises env root dry file) = []"
  proof -
    have "set (List.map_filter (\<lambda>p. case settled (pend p) of Inl e \<Rightarrow> Some e | Inr _ \<Rightarrow> None)
        (translationPromises env root dry file)) = {}"
      unfolding set_map_filter
      by (auto simp add: translationPromises_def settled_translateToEnglish [OF assms])
    then show ?thesis by simp
  qed
  then show ?thesis by (simp add: rejection_def)
qed

lemma tryBlock_tree:
  assumes "parser env api (source fileInfo) = Inr root"
    and "dryRun options \<or> newOpenAI env = None"
  shows "fst (tryBlock env sched fileInfo api options) =
         toSource env (translatedTree env sched root options (path fileInfo))"
  using assms rejection_None [OF assms(2)]
  by (simp add: tryBlock_def translatedTree_def Let_def case_prod_unfold)

lemma tryBlock_parse_failure:
  "parser env api (source fileInfo) = Inl e \<Longrightarrow>
   tryBlock env sched fileInfo api options = (Inl e, [])"
  by (simp add: tryBlock_def)

lemma tryBlock_idle:
  assumes "parser env api (source fileInfo) = Inr root" and "candidates root = []"
  shows "fst (tryBlock env sched fileInfo api options) =
         toSource env (translatedTree env sched root options (path fileInfo))"
  using assms
  by (simp add: tryBlock_def translatedTree_def translationPromises_def rejection_def
      map_filter_simps Let_def case_prod_unfold)

lemma tryBlock_print_failure:
  assumes "parser env api (source fileInfo) = Inr root"
    and "dryRun options \<or> newOpenAI env = None \<or> candidates root = []"
    and "toSource env (translatedTree env sched root options (path fileInfo)) = Inl e"
  shows "fst (tryBlock env sched fileInfo api options) = Inl e"
proof (cases "candidates root = []")
  case True
  with tryBlock_idle [OF assms(1) True] assms(3) show ?thesis by simp
next
  case False
  with assms(2) have "dryRun options \<or> newOpenAI env = None" by simp
  from tryBlock_tree [OF assms(1) this, of sched] assms(3) show ?thesis by simp
qed

lemma tryBlock_client_failure:
  assumes "parser env api (source fileInfo) = Inr root"
    and "\<not> dryRun options" and "newOpenAI env = Some e" and "candidates root \<noteq> []"
  shows "tryBlock env sched fileInfo api options =
     (Inl e, [Find KStringLiteral, Find KJSXText, Find KComment])"
proof -
  let ?ps = "translationPromises env root False (path fileInfo)"
  have all: "\<And>p. p \<in> set ?ps \<Longrightarrow> settled (pend p) = Inl e \<and> at_call (pend p) = []"
    using assms(3) by (auto simp add: translationPromises_def translateToEnglish_def)
  have "length ?ps \<noteq> 0" using assms(4) by simp
  then obtain p ps where ps: "?ps = p # ps" by (cases ?ps) simp_all
  then have "settled (pend p) = Inl e" using all [of p] by simp
  then have r: "rejection ?ps = Some e" by (simp add: ps rejection_def)
  have c: "concat (map (\<lambda>p. at_call (pend p)) qs) = []" if "set qs \<subseteq> set ?ps" for qs
    using that all by (induction qs) auto
  have "loopsEvents root ?ps = [Find KStringLiteral, Find KJSXText, Find KComment]"
    by (simp add: loopsEvents_def loopEvents_def Let_def c set_take_subset set_drop_subset
        subset_trans [OF set_take_subset set_drop_subset])
  with r assms(1,2) show ?thesis by (simp add: tryBlock_def Let_def)
qed

lemma transform_Inl:
  assumes "fst (tryBlock env sched fileInfo api options) = Inl error"
  shows "\<exists>ev. transform env sched fileInfo api options =
     (source fileInfo,
      ev @ [ConsoleError
              [Str (lit ''Failed to process '' @ path fileInfo @ lit '': '' @
                    js_error.message error)]])"
proof (cases "tryBlock env sched fileInfo api options")
  case (Pair r ev)
  with assms have "r = Inl error" by simp
  with Pair show ?thesis by (simp add: transform_def failedLine_def)
qed

text \<open>
  C4. Whatever is thrown inside the \<open>try\<close> block of \<open>transform\<close>: by the parser; by the
  constructor of the client when there is a candidate outside a dry run, which rejects
  the promise of that candidate; or by the printer, on the tree that the callbacks have
  left. Then \<open>transform\<close> returns the source text it was given, and the last thing it
  does is one line on \<open>console.error\<close> with the path and the message of the error.
\<close>

theorem transform_failure:
  assumes "parser env api (source fileInfo) = Inl error \<or>
     (\<exists>root. parser env api (source fileInfo) = Inr root \<and>
        ((\<not> dryRun options \<and> newOpenAI env = Some error \<and> candidates root \<noteq> []) \<or>
         ((dryRun options \<or> newOpenAI env = None \<or> candidates root = []) \<and>
          toSource env (translatedTree env sched root options (path fileInfo)) = Inl error)))"
  shows "\<exists>ev. transform env sched fileInfo api options =
     (source fileInfo,
      ev @ [ConsoleError
              [Str (lit ''Failed to process '' @ path fileInfo @ lit '': '' @
                    js_error.message error)]])"
proof -
  have "fst (tryBlock env sched fileInfo api options) = Inl error"
  proof (cases "parser env api (source fileInfo)")
    case (Inl e)
    with assms have "e = error" by auto
    with Inl show ?thesis by (simp add: tryBlock_parse_failure)
  next
    case (Inr root)
    with assms consider
        (client) "\<not> dryRun options" "newOpenAI env = Some error" "candidates root \<noteq> []"
      | (printer) "dryRun options \<or> newOpenAI env = None \<or> candidates root = []"
          "toSource env (translatedTree env sched root options (path fileInfo)) = Inl error"
      by auto
    then show ?thesis
    proof cases
      case client
      with Inr show ?thesis by (simp add: tryBlock_client_failure)
    next
      case printer
      with Inr show ?thesis by (rule tryBlock_print_failure)
    qed
  qed
  then show ?thesis by (rule transform_Inl)
qed

theorem transform_failure_witness:
  "(\<exists>ev. transform unparsable [] exampleFile None \<lparr>dryRun = False\<rparr> =
      (lit ''src'',
       ev @ [ConsoleError [Str (lit ''Failed to process a.tsx: Unexpected token'')]])) \<and>
   (\<exists>ev. transform noKey [] exampleFile None \<lparr>dryRun = False\<rparr> =
      (lit ''src'',
       ev @ [ConsoleError [Str (lit ''Failed to process a.tsx: Missing API key'')]])) \<and>
   (\<exists>ev. transform unprintable [0, 1, 2] exampleFile None \<lparr>dryRun = False\<rparr> =
      (lit ''src'',
       ev @ [ConsoleError [Str (lit ''Failed to process a.tsx: Cannot print'')]]))"
proof -
  have 1: "parser unparsable None (source exampleFile) = Inl (Error (lit ''Unexpected token''))"
    by (simp add: unparsable_def exampleEnv_def)
  have 2: "parser noKey None (source exampleFile) = Inr exampleTree \<and>
      \<not> dryRun \<lparr>dryRun = False\<rparr> \<and> newOpenAI noKey = Some (Error (lit ''Missing API key'')) \<and>
      candidates exampleTree \<noteq> []"
    by (simp add: noKey_def exampleEnv_def candidates_exampleTree)
  have 3: "parser unprintable None (source exampleFile) = Inr exampleTree \<and>
      newOpenAI unprintable = None \<and>
      toSource unprintable
        (translatedTree unprintable [0, 1, 2] exampleTree \<lparr>dryRun = False\<rparr> (path exampleFile)) =
        Inl (Error (lit ''Cannot print''))"
    by (simp add: unprintable_def exampleEnv_def)
  have l: "lit ''Failed to process '' @ path exampleFile @ lit '': '' @ lit m =
      lit (''Failed to process a.tsx: '' @ m)" for m
    by (simp add: exampleFile_def lit_def)
  from transform_failure
    [of unparsable None exampleFile "Error (lit ''Unexpected token'')" "\<lparr>dryRun = False\<rparr>" "[]"] 1
  have a: "\<exists>ev. transform unparsable [] exampleFile None \<lparr>dryRun = False\<rparr> =
      (lit ''src'',
       ev @ [ConsoleError [Str (lit ''Failed to process a.tsx: Unexpected token'')]])"
    by (simp add: l) (simp add: exampleFile_def)
  from transform_failure
    [of noKey None exampleFile "Error (lit ''Missing API key'')" "\<lparr>dryRun = False\<rparr>" "[]"] 2
  have b: "\<exists>ev. transform noKey [] exampleFile None \<lparr>dryRun = False\<rparr> =
      (lit ''src'',
       ev @ [ConsoleError [Str (lit ''Failed to process a.tsx: Missing API key'')]])"
    by (simp add: l) (simp add: exampleFile_def)
  from transform_failure
    [of unprintable None exampleFile "Error (lit ''Cannot print'')" "\<lparr>dryRun = False\<rparr>" "[0, 1, 2]"] 3
  have c: "\<exists>ev. transform unprintable [0, 1, 2] exampleFile None \<lparr>dryRun = False\<rparr> =
      (lit ''src'',
       ev @ [ConsoleError [Str (lit ''Failed to process a.tsx: Cannot print'')]])"
    by (simp add: l) (simp add: exampleFile_def)
  from a b c show ?thesis by (intro conjI)
qed

section \<open>The order of searches, requests and writes\<close>

lemma precedes_append:
  assumes "\<not> list_ex B xs" "\<not> list_ex A ys"
  shows "precedes A B (xs @ ys)"
proof -
  have "dropWhile (\<lambda>e. \<not> B e) (xs @ ys) = dropWhile (\<lambda>e. \<not> B e) ys"
    using assms(1) by (intro dropWhile_append2) (simp add: list_ex_iff)
  moreover have "\<not> list_ex A (dropWhile (\<lambda>e. \<not> B e) ys)"
    using assms(2) by (auto simp add: list_ex_iff dest: set_dropWhileD)
  ultimately show ?thesis by (simp add: precedes_def)
qed

lemma at_call_translateToEnglish:
  "e \<in> set (at_call (translateToEnglish env k s dry file)) \<Longrightarrow> \<not> isMutate e \<and> \<not> isFind e"
  by (auto simp add: translateToEnglish_def split: if_splits option.splits sum.splits)

lemma at_settle_translateToEnglish:
  "e \<in> set (at_settle (translateToEnglish env k s dry file)) \<Longrightarrow> \<not> isFind e \<and> \<not> isCreate e"
  by (auto simp add: translateToEnglish_def split: if_splits option.splits sum.splits)

lemma pend_translationPromises:
  "p \<in> set (translationPromises env root dry file) \<Longrightarrow>
   \<exists>k s. pend p = translateToEnglish env k s dry file"
  by (fastforce simp add: translationPromises_def)

lemma loopEvents_no_mutate:
  assumes "set ps \<subseteq> set (translationPromises env root dry file)"
  shows "\<not> list_ex isMutate (loopEvents kind ps)"
proof -
  have "\<not> isMutate e" if "e \<in> set (concat (map (\<lambda>p. at_call (pend p)) ps))" for e
  proof -
    from that obtain p where p: "p \<in> set ps" "e \<in> set (at_call (pend p))" by auto
    then have "p \<in> set (translationPromises env root dry file)" using assms by blast
    then obtain k s where "pend p = translateToEnglish env k s dry file"
      using pend_translationPromises by blast
    with p(2) have "e \<in> set (at_call (translateToEnglish env k s dry file))" by simp
    then show ?thesis by (simp add: at_call_translateToEnglish)
  qed
  then show ?thesis by (auto simp add: loopEvents_def list_ex_iff)
qed

lemma filter_isFind_loopEvents:
  assumes "set ps \<subseteq> set (translationPromises env root dry file)"
  shows "filter isFind (loopEvents kind ps) = [Find kind]"
proof -
  have "\<not> isFind e" if "e \<in> set (concat (map (\<lambda>p. at_call (pend p)) ps))" for e
  proof -
    from that obtain p where p: "p \<in> set ps" "e \<in> set (at_call (pend p))" by auto
    then have "p \<in> set (translationPromises env root dry file)" using assms by blast
    then obtain k s where "pend p = translateToEnglish env k s dry file"
      using pend_translationPromises by blast
    with p(2) have "e \<in> set (at_call (translateToEnglish env k s dry file))" by simp
    then show ?thesis by (simp add: at_call_translateToEnglish)
  qed
  then have "filter isFind (concat (map (\<lambda>p. at_call (pend p)) ps)) = []"
    by (simp add: filter_empty_conv)
  then show ?thesis by (simp add: loopEvents_def)
qed

lemma subset_take_drop:
  "set (take n ps) \<subseteq> set ps" "set (take n (drop m ps)) \<subseteq> set ps" "set (drop m ps) \<subseteq> set ps"
  by (auto dest: in_set_takeD in_set_dropD)

lemma loopsEvents_no_mutate:
  "\<not> list_ex isMutate (loopsEvents root (translationPromises env root dry file))"
  by (simp add: loopsEvents_def Let_def loopEvents_no_mutate [OF subset_take_drop(1)]
      loopEvents_no_mutate [OF subset_take_drop(2)] loopEvents_no_mutate [OF subset_take_drop(3)])

lemma filter_isFind_loopsEvents:
  "filter isFind (loopsEvents root (translationPromises env root dry file)) =
     [Find KStringLiteral, Find KJSXText, Find KComment]"
  by (simp add: loopsEvents_def Let_def filter_isFind_loopEvents [OF subset_take_drop(1)]
      filter_isFind_loopEvents [OF subset_take_drop(2)]
      filter_isFind_loopEvents [OF subset_take_drop(3)])

lemma settle_events_no_find:
  assumes "\<not> list_ex isFind (snd st)"
  shows "\<not> list_ex isFind (snd (fold (settleOne (translationPromises env root dry file)) order st))"
  using assms
proof (induction order arbitrary: st)
  case Nil
  then show ?case by simp
next
  case (Cons k order)
  let ?ps = "translationPromises env root dry file"
  have "\<not> list_ex isFind (snd (settleOne ?ps k st))"
  proof (cases "k < length ?ps")
    case False
    with Cons.prems show ?thesis by (simp add: settleOne_def)
  next
    case True
    then have "?ps ! k \<in> set ?ps" by simp
    then obtain j s where "pend (?ps ! k) = translateToEnglish env j s dry file"
      using pend_translationPromises by blast
    then have "\<not> list_ex isFind (at_settle (pend (?ps ! k)))"
      using at_settle_translateToEnglish [of _ env j s dry "file"] by (auto simp add: list_ex_iff)
    with True Cons.prems show ?thesis
      by (simp add: settleOne_def split: sum.splits)
  qed
  then show ?case using Cons.IH [of "settleOne ?ps k st"] by simp
qed

lemma settleAll_no_find:
  "\<not> list_ex isFind (snd (settleAll (translationPromises env root dry file) order root))"
  unfolding settleAll_def by (rule settle_events_no_find) simp

lemma snd_tryBlock:
  "snd (tryBlock env sched fileInfo api options) =
     (case parser env api (source fileInfo) of
        Inl e \<Rightarrow> []
      | Inr root \<Rightarrow>
          (let ps = translationPromises env root (dryRun options) (path fileInfo)
           in loopsEvents root ps @
              (case rejection ps of
                 Some e \<Rightarrow> []
               | None \<Rightarrow> snd (settleAll ps (settleOrder options sched ps) root))))"
  by (simp add: tryBlock_def Let_def case_prod_unfold split: sum.splits option.splits)

lemma snd_transform:
  "\<exists>tail. snd (transform env sched fileInfo api options) =
           snd (tryBlock env sched fileInfo api options) @ tail \<and>
           \<not> list_ex isFind tail \<and> \<not> list_ex isMutate tail \<and> \<not> list_ex isCreate tail \<and>
           consoleLogs tail = []"
proof (cases "tryBlock env sched fileInfo api options")
  case (Pair r ev)
  show ?thesis
  proof (cases r)
    case (Inl e)
    with Pair show ?thesis by (simp add: transform_def consoleLogs_def)
  next
    case (Inr out)
    with Pair have "snd (transform env sched fileInfo api options) =
        snd (tryBlock env sched fileInfo api options) @ []"
      by (simp add: transform_def)
    then show ?thesis by (intro exI [of _ "[]"]) (simp add: consoleLogs_def)
  qed
qed

lemma tryBlock_events:
  "\<exists>ev1 ev2. snd (tryBlock env sched fileInfo api options) = ev1 @ ev2 \<and>
     \<not> list_ex isMutate ev1 \<and> \<not> list_ex isFind ev2"
proof (cases "parser env api (source fileInfo)")
  case (Inl e)
  then have "snd (tryBlock env sched fileInfo api options) = [] @ []"
    by (simp add: snd_tryBlock)
  then show ?thesis by (intro exI [of _ "[]"]) simp
next
  case (Inr root)
  let ?ps = "translationPromises env root (dryRun options) (path fileInfo)"
  let ?ev2 = "case rejection ?ps of Some e \<Rightarrow> []
    | None \<Rightarrow> snd (settleAll ?ps (settleOrder options sched ?ps) root)"
  have "snd (tryBlock env sched fileInfo api options) = loopsEvents root ?ps @ ?ev2"
    using Inr by (simp add: snd_tryBlock Let_def)
  moreover have "\<not> list_ex isMutate (loopsEvents root ?ps)" by (rule loopsEvents_no_mutate)
  moreover have "\<not> list_ex isFind ?ev2"
    by (cases "rejection ?ps") (simp_all add: settleAll_no_find)
  ultimately show ?thesis by blast
qed

lemma filter_isFind_empty: "\<not> list_ex isFind ev \<Longrightarrow> filter isFind ev = []"
  by (simp add: filter_empty_conv list_ex_iff)

lemma settle_events_no_create:
  assumes "\<not> list_ex isCreate (snd st)"
  shows "\<not> list_ex isCreate (snd (fold (settleOne (translationPromises env root dry file)) order st))"
  using assms
proof (induction order arbitrary: st)
  case Nil
  then show ?case by simp
next
  case (Cons k order)
  let ?ps = "translationPromises env root dry file"
  have "\<not> list_ex isCreate (snd (settleOne ?ps k st))"
  proof (cases "k < length ?ps")
    case False
    with Cons.prems show ?thesis by (simp add: settleOne_def)
  next
    case True
    then have "?ps ! k \<in> set ?ps" by simp
    then obtain j s where "pend (?ps ! k) = translateToEnglish env j s dry file"
      using pend_translationPromises by blast
    then have "\<not> list_ex isCreate (at_settle (pend (?ps ! k)))"
      using at_settle_translateToEnglish [of _ env j s dry "file"] by (auto simp add: list_ex_iff)
    with True Cons.prems show ?thesis
      by (simp add: settleOne_def split: sum.splits)
  qed
  then show ?case using Cons.IH [of "settleOne ?ps k st"] by simp
qed

lemma settleAll_no_create:
  "\<not> list_ex isCreate (snd (settleAll (translationPromises env root dry file) order root))"
  unfolding settleAll_def by (rule settle_events_no_create) simp

lemma map_request_translationPromises:
  "map request (translationPromises env root dry file) = map snd (candidates root)"
  by (rule nth_equalityI)
    (simp_all add: translationPromises_def nth_enumerate_eq case_prod_unfold)

lemma at_call_request:
  assumes "\<not> dry" and "newOpenAI env = None"
    and "p \<in> set (translationPromises env root dry file)"
  shows "at_call (pend p) = [Create (request p)]"
  using assms
  by (auto simp add: translationPromises_def translateToEnglish_def split: sum.splits)

lemma loopEvents_requests:
  assumes "\<not> dry" and "newOpenAI env = None"
    and "set qs \<subseteq> set (translationPromises env root dry file)"
  shows "loopEvents kind qs = Find kind # map Create (map request qs)"
proof -
  have "concat (map (\<lambda>p. at_call (pend p)) qs) = map Create (map request qs)"
    using assms(3)
  proof (induction qs)
    case Nil
    show ?case by simp
  next
    case (Cons q qs)
    then have "at_call (pend q) = [Create (request q)]"
      using at_call_request [OF assms(1,2), of q root "file"] by simp
    with Cons show ?case by simp
  qed
  then show ?thesis by (simp add: loopEvents_def)
qed

lemma loopsEvents_requests:
  assumes "\<not> dry" and "newOpenAI env = None"
  shows "loopsEvents root (translationPromises env root dry file) =
     Find KStringLiteral # map (\<lambda>c. Create (snd c)) (literalCandidates root) @
     Find KJSXText # map (\<lambda>c. Create (snd c)) (jsxCandidates root) @
     Find KComment # map (\<lambda>c. Create (snd c)) (commentCandidates root)"
proof -
  let ?ps = "translationPromises env root dry file"
  let ?n1 = "length (literalCandidates root)"
  let ?n2 = "length (jsxCandidates root)"
  have r: "map request ?ps = map snd (literalCandidates root) @
      map snd (jsxCandidates root) @ map snd (commentCandidates root)"
    by (simp add: map_request_translationPromises candidates_def)
  have 1: "map request (take ?n1 ?ps) = map snd (literalCandidates root)"
    unfolding take_map [symmetric] r by simp
  have 2: "map request (take ?n2 (drop ?n1 ?ps)) = map snd (jsxCandidates root)"
    unfolding take_map [symmetric] drop_map [symmetric] r by simp
  have 3: "map request (drop (?n1 + ?n2) ?ps) = map snd (commentCandidates root)"
    unfolding drop_map [symmetric] r by simp
  have c: "map Create (map snd cs) = map (\<lambda>c. Create (snd c)) cs"
    for cs :: "(target \<times> jsstring) list"
    by simp
  show ?thesis
    unfolding loopsEvents_def Let_def
      loopEvents_requests [OF assms subset_take_drop(1)]
      loopEvents_requests [OF assms subset_take_drop(2)]
      loopEvents_requests [OF assms subset_take_drop(3)]
      1 2 3 c
    by simp
qed

text \<open>
  C5, as the code has it. In every run each kind of node is searched once, in the order
  literals, JSX texts, comments, on the tree as parsed, and every search comes before
  every write into the tree, so that no node written by a callback is searched in the
  same run. The requests do not wait for the searches: outside a dry run, the requests
  for the candidate literals of the parsed tree go out right after the search for
  literals, then the JSX texts are searched and the requests for the candidate JSX texts
  go out, then the comments are searched and the requests for the candidate comments go
  out; nothing is searched or requested after that.
\<close>

theorem classification_before_mutation:
  "precedes isFind isMutate (snd (transform env sched fileInfo api options)) \<and>
   (case parser env api (source fileInfo) of
      Inl e \<Rightarrow> True
    | Inr root \<Rightarrow>
        filter isFind (snd (transform env sched fileInfo api options)) =
          [Find KStringLiteral, Find KJSXText, Find KComment] \<and>
        (\<not> dryRun options \<and> newOpenAI env = None \<longrightarrow>
           (\<exists>rest. snd (transform env sched fileInfo api options) =
               (Find KStringLiteral # map (\<lambda>c. Create (snd c)) (literalCandidates root) @
                Find KJSXText # map (\<lambda>c. Create (snd c)) (jsxCandidates root) @
                Find KComment # map (\<lambda>c. Create (snd c)) (commentCandidates root)) @ rest \<and>
               \<not> list_ex isFind rest \<and> \<not> list_ex isCreate rest)))"
proof
  obtain tail where tail: "snd (transform env sched fileInfo api options) =
      snd (tryBlock env sched fileInfo api options) @ tail"
    "\<not> list_ex isFind tail" "\<not> list_ex isMutate tail" "\<not> list_ex isCreate tail"
    using snd_transform by blast
  obtain ev1 ev2 where ev: "snd (tryBlock env sched fileInfo api options) = ev1 @ ev2"
    "\<not> list_ex isMutate ev1" "\<not> list_ex isFind ev2"
    using tryBlock_events by blast
  have "precedes isFind isMutate (ev1 @ (ev2 @ tail))"
    using ev(2,3) tail(2) by (intro precedes_append) simp_all
  then show "precedes isFind isMutate (snd (transform env sched fileInfo api options))"
    using tail(1) ev(1) by simp
  show "case parser env api (source fileInfo) of
      Inl e \<Rightarrow> True
    | Inr root \<Rightarrow>
        filter isFind (snd (transform env sched fileInfo api options)) =
          [Find KStringLiteral, Find KJSXText, Find KComment] \<and>
        (\<not> dryRun options \<and> newOpenAI env = None \<longrightarrow>
           (\<exists>rest. snd (transform env sched fileInfo api options) =
               (Find KStringLiteral # map (\<lambda>c. Create (snd c)) (literalCandidates root) @
                Find KJSXText # map (\<lambda>c. Create (snd c)) (jsxCandidates root) @
                Find KComment # map (\<lambda>c. Create (snd c)) (commentCandidates root)) @ rest \<and>
               \<not> list_ex isFind rest \<and> \<not> list_ex isCreate rest))"
  proof (cases "parser env api (source fileInfo)")
    case (Inl e)
    then show ?thesis by simp
  next
    case (Inr root)
    let ?ps = "translationPromises env root (dryRun options) (path fileInfo)"
    let ?loops = "Find KStringLiteral # map (\<lambda>c. Create (snd c)) (literalCandidates root) @
        Find KJSXText # map (\<lambda>c. Create (snd c)) (jsxCandidates root) @
        Find KComment # map (\<lambda>c. Create (snd c)) (commentCandidates root)"
    have "filter isFind (snd (tryBlock env sched fileInfo api options)) =
        [Find KStringLiteral, Find KJSXText, Find KComment]"
      using Inr
      by (cases "rejection ?ps")
        (simp_all add: snd_tryBlock Let_def filter_isFind_loopsEvents
          filter_isFind_empty [OF settleAll_no_find])
    then have finds: "filter isFind (snd (transform env sched fileInfo api options)) =
        [Find KStringLiteral, Find KJSXText, Find KComment]"
      using tail(1,2) by (simp add: filter_isFind_empty)
    have requests: "\<exists>rest. snd (transform env sched fileInfo api options) = ?loops @ rest \<and>
        \<not> list_ex isFind rest \<and> \<not> list_ex isCreate rest"
      if live: "\<not> dryRun options" "newOpenAI env = None"
    proof -
      let ?ev2 = "snd (settleAll ?ps (settleOrder options sched ?ps) root)"
      have "rejection ?ps = None" by (rule rejection_None) (simp add: live(2))
      then have "snd (tryBlock env sched fileInfo api options) = loopsEvents root ?ps @ ?ev2"
        using Inr by (simp add: snd_tryBlock Let_def)
      then have "snd (transform env sched fileInfo api options) = ?loops @ (?ev2 @ tail)"
        using tail(1) loopsEvents_requests [OF live, of root "path fileInfo"] by simp
      moreover have "\<not> list_ex isFind (?ev2 @ tail)"
        using settleAll_no_find [of env root "dryRun options" "path fileInfo"] tail(2) by simp
      moreover have "\<not> list_ex isCreate (?ev2 @ tail)"
        using settleAll_no_create [of env root "dryRun options" "path fileInfo"] tail(4) by simp
      ultimately show ?thesis by blast
    qed
    from finds requests show ?thesis using Inr by simp
  qed
qed

lemma transform_exampleTree_events:
  "snd (transform (exampleEnv exampleTree hello) [0, 1, 2] exampleFile None \<lparr>dryRun = False\<rparr>) =
     [Find KStringLiteral, Create konnichiwa, Find KJSXText, Create konnichiwa,
      Find KComment, Create aisatsu,
      Mutate (LiteralAt [0]), Mutate (JSXTextAt [1]), Mutate (CommentAt [] 0)]"
  by (simp add: transform_def tryBlock_def exampleEnv_def exampleFile_def Let_def
      translationPromises_def candidates_exampleTree enumerate_eq_zip translateToEnglish_def
      completion_def hello_def firstContent_def rejection_def loopsEvents_def loopEvents_def
      settleAll_def settleOne_def settleOrder_def)
    (simp add: candidates_def literalCandidates_def jsxCandidates_def exampleTree_def
      konnichiwa_def containsJapanese_def japaneseUnit_def trim_def isWhiteSpace_def lit_def)

text \<open>
  C5 as stated asks that all three searches are over before the first request goes out.
  The loops do not wait: the first loop already calls \<open>translateToEnglish\<close>, and with it
  \<open>create\<close>, before the JSX texts and the comments are searched.
\<close>

theorem requests_before_classification_counterexample:
  "\<not> precedes isFind isCreate
       (snd (transform (exampleEnv exampleTree hello) [0, 1, 2] exampleFile None
              \<lparr>dryRun = False\<rparr>))"
  unfolding transform_exampleTree_events by (simp add: precedes_def)

theorem classification_before_mutation_witness:
  "precedes isFind isMutate
     (snd (transform (exampleEnv exampleTree hello) [0, 1, 2] exampleFile None
            \<lparr>dryRun = False\<rparr>)) \<and>
   filter isFind
     (snd (transform (exampleEnv exampleTree hello) [0, 1, 2] exampleFile None
            \<lparr>dryRun = False\<rparr>)) =
     [Find KStringLiteral, Find KJSXText, Find KComment] \<and>
   (\<exists>rest. snd (transform (exampleEnv exampleTree hello) [0, 1, 2] exampleFile None
                  \<lparr>dryRun = False\<rparr>) =
       [Find KStringLiteral, Create konnichiwa, Find KJSXText, Create konnichiwa,
        Find KComment, Create aisatsu] @ rest \<and>
       list_ex isFind rest = False \<and> list_ex isCreate rest = False)"
proof -
  have p: "parser (exampleEnv exampleTree hello) None (source exampleFile) = Inr exampleTree"
    and n: "newOpenAI (exampleEnv exampleTree hello) = None"
    by (simp_all add: exampleEnv_def)
  from classification_before_mutation
    [of "exampleEnv exampleTree hello" "[0, 1, 2]" exampleFile None "\<lparr>dryRun = False\<rparr>"]
  show ?thesis
    unfolding p n by (simp add: kinds_exampleTree)
qed

section \<open>Dry runs\<close>

lemma consoleLogs_append [simp]: "consoleLogs (xs @ ys) = consoleLogs xs @ consoleLogs ys"
  by (simp add: consoleLogs_def List.map_filter_def)

lemma consoleLogs_Nil [simp]: "consoleLogs [] = []"
  by (simp add: consoleLogs_def)

lemma consoleLogs_Cons [simp]:
  "consoleLogs (e # ev) = (case e of ConsoleLog a \<Rightarrow> a # consoleLogs ev | _ \<Rightarrow> consoleLogs ev)"
  by (cases e) (simp_all add: consoleLogs_def)

lemma take_drop_parts: "take a ps @ take b (drop a ps) @ drop (a + b) ps = ps"
proof -
  have "take b (drop a ps) @ drop (a + b) ps = drop a ps"
    by (metis add.commute append_take_drop_id drop_drop)
  then show ?thesis by simp
qed

lemma dry_promise:
  assumes "p \<in> set (translationPromises env root True file)"
  shows "at_call (pend p) = [ConsoleLog [Str (dryRunLine file (request p))]] \<and>
         at_settle (pend p) = [] \<and> (\<exists>r. settled (pend p) = Inr r)"
  using assms by (auto simp add: translationPromises_def translateToEnglish_def)

lemma dry_loopEvents:
  assumes "set ps \<subseteq> set (translationPromises env root True file)"
  shows "consoleLogs (loopEvents kind ps) = map (\<lambda>p. [Str (dryRunLine file (request p))]) ps \<and>
         \<not> list_ex isCreate (loopEvents kind ps)"
  using assms
proof (induction ps)
  case Nil
  show ?case by (simp add: loopEvents_def)
next
  case (Cons p ps)
  then have "consoleLogs (loopEvents kind ps) = map (\<lambda>p. [Str (dryRunLine file (request p))]) ps"
    and "\<not> list_ex isCreate (loopEvents kind ps)" by simp_all
  moreover have "at_call (pend p) = [ConsoleLog [Str (dryRunLine file (request p))]]"
    using Cons.prems dry_promise [of p env root "file"] by simp
  ultimately show ?case by (simp add: loopEvents_def)
qed

lemma dry_loopsEvents:
  "consoleLogs (loopsEvents root (translationPromises env root True file)) =
     map (\<lambda>(tg, s). [Str (dryRunLine file s)]) (candidates root) \<and>
   \<not> list_ex isCreate (loopsEvents root (translationPromises env root True file))"
proof -
  let ?ps = "translationPromises env root True file"
  let ?n1 = "length (literalCandidates root)" and ?n2 = "length (jsxCandidates root)"
  let ?line = "\<lambda>p. [Str (dryRunLine file (request p))]"
  have "consoleLogs (loopsEvents root ?ps) =
      map ?line (take ?n1 ?ps) @ map ?line (take ?n2 (drop ?n1 ?ps)) @
      map ?line (drop (?n1 + ?n2) ?ps)"
    by (simp add: loopsEvents_def Let_def dry_loopEvents [OF subset_take_drop(1)]
        dry_loopEvents [OF subset_take_drop(2)] dry_loopEvents [OF subset_take_drop(3)])
  also have "\<dots> = map ?line (take ?n1 ?ps @ take ?n2 (drop ?n1 ?ps) @ drop (?n1 + ?n2) ?ps)"
    by simp
  also have "\<dots> = map ?line ?ps" by (simp only: take_drop_parts)
  also have "\<dots> = map (\<lambda>(tg, s). [Str (dryRunLine file s)]) (candidates root)"
    by (rule nth_equalityI)
      (simp_all add: translationPromises_def nth_enumerate_eq case_prod_unfold)
  finally have a: "consoleLogs (loopsEvents root ?ps) =
      map (\<lambda>(tg, s). [Str (dryRunLine file s)]) (candidates root)" .
  have b: "\<not> list_ex isCreate (loopsEvents root ?ps)"
    by (simp add: loopsEvents_def Let_def dry_loopEvents [OF subset_take_drop(1)]
        dry_loopEvents [OF subset_take_drop(2)] dry_loopEvents [OF subset_take_drop(3)])
  from a b show ?thesis ..
qed

lemma dry_settle_events:
  assumes "consoleLogs (snd st) = [] \<and> \<not> list_ex isCreate (snd st)"
  shows "consoleLogs (snd (fold (settleOne (translationPromises env root True file)) order st)) = [] \<and>
         \<not> list_ex isCreate (snd (fold (settleOne (translationPromises env root True file)) order st))"
  using assms
proof (induction order arbitrary: st)
  case Nil
  then show ?case by simp
next
  case (Cons k order)
  let ?ps = "translationPromises env root True file"
  have "consoleLogs (snd (settleOne ?ps k st)) = [] \<and> \<not> list_ex isCreate (snd (settleOne ?ps k st))"
  proof (cases "k < length ?ps")
    case False
    with Cons.prems show ?thesis by (simp add: settleOne_def)
  next
    case True
    then have "?ps ! k \<in> set ?ps" by simp
    then have "at_settle (pend (?ps ! k)) = []" using dry_promise by blast
    with True Cons.prems show ?thesis
      by (simp add: settleOne_def split: sum.splits)
  qed
  then show ?case using Cons.IH [of "settleOne ?ps k st"] by simp
qed

lemma dry_transform:
  assumes "parser env api (source fileInfo) = Inr root"
  shows "consoleLogs (snd (transform env sched fileInfo api \<lparr>dryRun = True\<rparr>)) =
           map (\<lambda>(tg, s). [Str (dryRunLine (path fileInfo) s)]) (candidates root) \<and>
         \<not> list_ex isCreate (snd (transform env sched fileInfo api \<lparr>dryRun = True\<rparr>))"
proof -
  let ?ps = "translationPromises env root True (path fileInfo)"
  obtain tail where tail:
    "snd (transform env sched fileInfo api \<lparr>dryRun = True\<rparr>) =
      snd (tryBlock env sched fileInfo api \<lparr>dryRun = True\<rparr>) @ tail"
    "\<not> list_ex isCreate tail" "consoleLogs tail = []"
    using snd_transform by blast
  have r: "rejection ?ps = None" by (rule rejection_None) simp
  have "consoleLogs (snd (settleAll ?ps (settleOrder \<lparr>dryRun = True\<rparr> sched ?ps) root)) = [] \<and>
      \<not> list_ex isCreate (snd (settleAll ?ps (settleOrder \<lparr>dryRun = True\<rparr> sched ?ps) root))"
    unfolding settleAll_def by (rule dry_settle_events) simp
  with assms r dry_loopsEvents [of root env "path fileInfo"] tail show ?thesis
    by (simp add: snd_tryBlock Let_def)
qed

lemma no_create_without_parse:
  assumes "parser env api (source fileInfo) = Inl e"
  shows "\<not> list_ex isCreate (snd (transform env sched fileInfo api options))"
proof -
  obtain tail where tail:
    "snd (transform env sched fileInfo api options) =
      snd (tryBlock env sched fileInfo api options) @ tail"
    "\<not> list_ex isCreate tail"
    using snd_transform by blast
  with assms show ?thesis by (simp add: snd_tryBlock)
qed

text \<open>
  C8, as the code has it. In a dry run \<open>translateToEnglish\<close> logs one line with the file
  name and the text, calls nothing, and resolves with a marker that quotes the text (and
  not the file name); \<open>processFile\<close> leaves the file system as it was and \<open>create\<close> is never
  called; and when the file can be read and parsed, the lines on \<open>console.log\<close> are one per
  candidate, each with the file name and the text sent for that candidate, in the order
  in which the loops reach the candidates: the literals, then the JSX texts, then the
  comments, those below a node before those of the node itself.
\<close>

theorem dry_run_reports_only:
  "translateToEnglish env k text True fileName =
     \<lparr>at_call =
        [ConsoleLog
           [Str (lit ''File: '' @ fileName @ lit '', Would translate: '' @ dq @ text @ dq)]],
      at_settle = [],
      settled = Inr (lit ''[DRYRUN] Would translate: '' @ dq @ text @ dq)\<rparr> \<and>
   fst (processFile env sched fs file \<lparr>dryRun = True\<rparr>) = fs \<and>
   \<not> list_ex isCreate (snd (processFile env sched fs file \<lparr>dryRun = True\<rparr>)) \<and>
   (case fs file of
      None \<Rightarrow> True
    | Some src \<Rightarrow>
        (case parser env (parserFor file) src of
           Inl e \<Rightarrow> True
         | Inr root \<Rightarrow>
             consoleLogs (snd (processFile env sched fs file \<lparr>dryRun = True\<rparr>)) =
               map (\<lambda>(tg, s). [Str (lit ''File: '' @ file @ lit '', Would translate: '' @ dq @ s @ dq)])
                 (candidates root)))"
proof (intro conjI)
  show "translateToEnglish env k text True fileName =
     \<lparr>at_call =
        [ConsoleLog
           [Str (lit ''File: '' @ fileName @ lit '', Would translate: '' @ dq @ text @ dq)]],
      at_settle = [],
      settled = Inr (lit ''[DRYRUN] Would translate: '' @ dq @ text @ dq)\<rparr>"
    by (simp add: translateToEnglish_def dryRunLine_def dryRunMarker_def)
  show "fst (processFile env sched fs file \<lparr>dryRun = True\<rparr>) = fs"
    by (simp add: processFile_def case_prod_unfold Let_def split: option.splits)
  show "\<not> list_ex isCreate (snd (processFile env sched fs file \<lparr>dryRun = True\<rparr>))"
  proof (cases "fs file")
    case None
    then show ?thesis by (simp add: processFile_def skipped_def)
  next
    case (Some src)
    let ?fi = "\<lparr>path = file, source = src\<rparr>"
    have "\<not> list_ex isCreate (snd (transform env sched ?fi (parserFor file) \<lparr>dryRun = True\<rparr>))"
    proof (cases "parser env (parserFor file) src")
      case (Inl e)
      then show ?thesis by (intro no_create_without_parse [of _ _ _ e]) simp
    next
      case (Inr root)
      then show ?thesis using dry_transform [of env "parserFor file" ?fi root sched] by simp
    qed
    with Some show ?thesis by (simp add: processFile_def case_prod_unfold)
  qed
  show "case fs file of
      None \<Rightarrow> True
    | Some src \<Rightarrow>
        (case parser env (parserFor file) src of
           Inl e \<Rightarrow> True
         | Inr root \<Rightarrow>
             consoleLogs (snd (processFile env sched fs file \<lparr>dryRun = True\<rparr>)) =
               map (\<lambda>(tg, s). [Str (lit ''File: '' @ file @ lit '', Would translate: '' @ dq @ s @ dq)])
                 (candidates root))"
  proof (cases "fs file")
    case None
    then show ?thesis by simp
  next
    case (Some src)
    show ?thesis
    proof (cases "parser env (parserFor file) src")
      case (Inl e)
      with Some show ?thesis by simp
    next
      case (Inr root)
      let ?fi = "\<lparr>path = file, source = src\<rparr>"
      have "consoleLogs (snd (transform env sched ?fi (parserFor file) \<lparr>dryRun = True\<rparr>)) =
          map (\<lambda>(tg, s). [Str (dryRunLine file s)]) (candidates root)"
        using Inr dry_transform [of env "parserFor file" ?fi root sched] by simp
      with Some Inr show ?thesis
        by (simp add: processFile_def case_prod_unfold dryRunLine_def)
    qed
  qed
qed

theorem dry_run_reports_only_witness:
  "fst (processFile (exampleEnv exampleTree hello) [] exampleFs (lit ''a.tsx'') \<lparr>dryRun = True\<rparr>) =
     exampleFs \<and>
   consoleLogs
     (snd (processFile (exampleEnv exampleTree hello) [] exampleFs (lit ''a.tsx'')
             \<lparr>dryRun = True\<rparr>)) =
     [[Str (lit ''File: a.tsx, Would translate: '' @ dq @ konnichiwa @ dq)],
      [Str (lit ''File: a.tsx, Would translate: '' @ dq @ konnichiwa @ dq)],
      [Str (lit ''File: a.tsx, Would translate: '' @ dq @ aisatsu @ dq)]] \<and>
   consoleLogs
     (snd (processFile (exampleEnv nestedComments hello) [] exampleFs (lit ''a.tsx'')
             \<lparr>dryRun = True\<rparr>)) =
     [[Str (lit ''File: a.tsx, Would translate: '' @ dq @ uchi @ dq)],
      [Str (lit ''File: a.tsx, Would translate: '' @ dq @ soto @ dq)]]"
  using dry_run_reports_only
    [of "exampleEnv exampleTree hello" 0 "[]" "[]" "[]" exampleFs "lit ''a.tsx''"]
    dry_run_reports_only
    [of "exampleEnv nestedComments hello" 0 "[]" "[]" "[]" exampleFs "lit ''a.tsx''"]
  by (simp add: exampleFs_def exampleEnv_def candidates_exampleTree candidates_nestedComments
      lit_def)

text \<open>
  C8 as stated has the returned marker embed the context as well. The marker holds the
  text only; the file name is in the logged line.
\<close>

theorem marker_embeds_context_counterexample:
  "settled (translateToEnglish (exampleEnv exampleTree hello) 0 konnichiwa True (lit ''a.tsx'')) =
     Inr (lit ''[DRYRUN] Would translate: '' @ dq @ konnichiwa @ dq) \<and>
   \<not> occursIn (lit ''a.tsx'') (lit ''[DRYRUN] Would translate: '' @ dq @ konnichiwa @ dq) \<and>
   occursIn konnichiwa (lit ''[DRYRUN] Would translate: '' @ dq @ konnichiwa @ dq)"
  by (simp add: translateToEnglish_def dryRunMarker_def lit_def dq_def konnichiwa_def)

section \<open>What is written back\<close>

lemma candidate_payload:
  assumes "k < length (candidates root)" "candidates root ! k = (tg, s)"
  shows "\<exists>v. payload tg root = Some v \<and> s = sent tg v \<and> containsJapanese s"
proof -
  have "(tg, s) \<in> set (candidates root)" using assms by (metis nth_mem)
  then show ?thesis by (simp add: candidates_iff)
qed

text \<open>
  C10. Outside a dry run, when the backend answers the request of a candidate with a
  first choice whose content is \<open>raw\<close>: the text sent was the literal's value, or the trimmed
  value of the JSX text or comment; the promise resolves with \<open>trim raw\<close>, not with \<open>raw\<close>;
  and the text found at the candidate in the tree that is printed is \<open>trim raw\<close> as the
  callback writes it (for a comment: when the node it sits on is not itself replaced).
\<close>

theorem translation_trimmed:
  assumes "\<not> dryRun options" and "newOpenAI env = None"
    and "schedule (length (candidates root)) sched"
    and "k < length (candidates root)" and "candidates root ! k = (tg, s)"
    and "create env k s = Inr (Response (Choice (Message (Some raw)) # others))"
  shows "(\<exists>v. payload tg root = Some v \<and> s = sent tg v) \<and>
         pend (translationPromises env root (dryRun options) file ! k) =
           \<lparr>at_call = [Create s], at_settle = [], settled = Inr (trim raw)\<rparr> \<and>
         (\<not> hostReplaced root tg \<longrightarrow>
            payload tg (translatedTree env sched root options file) =
              Some (written tg (trim raw)))"
proof (intro conjI impI)
  show "\<exists>v. payload tg root = Some v \<and> s = sent tg v"
    using candidate_payload [OF assms(4,5)] by blast
  have c: "completion env k s = Inr (trim raw)"
    using assms(6) by (simp add: completion_def firstContent_def)
  show "pend (translationPromises env root (dryRun options) file ! k) =
      \<lparr>at_call = [Create s], at_settle = [], settled = Inr (trim raw)\<rparr>"
    using assms(1,2) c nth_translationPromises [OF assms(4,5)]
    by (simp add: translateToEnglish_def)
  assume h: "\<not> hostReplaced root tg"
  have "translated env k s (dryRun options) = trim raw"
    using assms(1) c by (simp add: translated_def)
  then show "payload tg (translatedTree env sched root options file) = Some (written tg (trim raw))"
    using translatedTree_candidate [OF _ _ assms(4,5) h, of options env sched "file"] assms(2,3)
    by simp
qed

lemma hostReplaced_exampleTree:
  "\<not> hostReplaced exampleTree (LiteralAt [0])"
  "\<not> hostReplaced exampleTree (JSXTextAt [1])"
  "\<not> hostReplaced exampleTree (CommentAt [] 0)"
  by (simp_all add: hostReplaced_def candidates_exampleTree kills_def)

lemma schedule_example: "schedule (length (candidates exampleTree)) [2, 1, 0]"
  by (auto simp add: schedule_def candidates_exampleTree)

theorem translation_trimmed_witness:
  "payload (JSXTextAt [1]) exampleTree = Some konnichiwa \<and>
   konnichiwa = sent (JSXTextAt [1]) konnichiwa \<and>
   pend (translationPromises (exampleEnv exampleTree hello) exampleTree False (lit ''a.tsx'') ! 1) =
     \<lparr>at_call = [Create konnichiwa], at_settle = [], settled = Inr (lit ''Hello'')\<rparr> \<and>
   payload (JSXTextAt [1])
     (translatedTree (exampleEnv exampleTree hello) [2, 1, 0] exampleTree \<lparr>dryRun = False\<rparr>
        (lit ''a.tsx'')) = Some (lit '' Hello '')"
proof -
  have t: "trim (lit '' Hello '') = lit ''Hello''"
    by (simp add: trim_def lit_def isWhiteSpace_def)
  have p: "payload (JSXTextAt [1]) exampleTree = Some konnichiwa"
    by (simp add: payload_def exampleTree_def)
  have s: "sent (JSXTextAt [1]) konnichiwa = konnichiwa"
    by (simp add: trim_def konnichiwa_def isWhiteSpace_def)
  have "(\<exists>v. payload (JSXTextAt [1]) exampleTree = Some v \<and> konnichiwa = sent (JSXTextAt [1]) v) \<and>
      pend (translationPromises (exampleEnv exampleTree hello) exampleTree
              (dryRun \<lparr>dryRun = False\<rparr>) (lit ''a.tsx'') ! 1) =
        \<lparr>at_call = [Create konnichiwa], at_settle = [], settled = Inr (trim (lit '' Hello ''))\<rparr> \<and>
      (\<not> hostReplaced exampleTree (JSXTextAt [1]) \<longrightarrow>
       payload (JSXTextAt [1])
        (translatedTree (exampleEnv exampleTree hello) [2, 1, 0] exampleTree \<lparr>dryRun = False\<rparr>
           (lit ''a.tsx'')) = Some (written (JSXTextAt [1]) (trim (lit '' Hello ''))))"
  proof (rule translation_trimmed)
    show "\<not> dryRun \<lparr>dryRun = False\<rparr>" by simp
    show "newOpenAI (exampleEnv exampleTree hello) = None" by (simp add: exampleEnv_def)
    show "schedule (length (candidates exampleTree)) [2, 1, 0]" by (rule schedule_example)
    show "1 < length (candidates exampleTree)" by (simp add: candidates_exampleTree)
    show "candidates exampleTree ! 1 = (JSXTextAt [1], konnichiwa)"
      by (simp add: candidates_exampleTree)
    show "create (exampleEnv exampleTree hello) 1 konnichiwa =
        Inr (Response (Choice (Message (Some (lit '' Hello ''))) # []))"
      by (simp add: exampleEnv_def hello_def)
  qed
  with p s t hostReplaced_exampleTree(2) show ?thesis by (simp add: lit_def)
qed

lemma trimmed_sent_padded: "padded tg \<Longrightarrow> trimmed (sent tg v)"
  by (cases tg) (simp_all add: trimmed_trim)

lemma candidate_in_targets:
  "k < length (candidates root) \<Longrightarrow> candidates root ! k = (tg, s) \<Longrightarrow> tg \<in> targets root"
  unfolding targets_def by (metis fst_conv image_eqI nth_mem)

lemma candidate_trimmed:
  assumes "k < length (candidates root)" "candidates root ! k = (tg, s)" "padded tg"
  shows "trimmed (translated env k s dry)"
proof -
  from candidate_payload [OF assms(1,2)] obtain v where "s = sent tg v" by blast
  with assms(3) have "trimmed s" by (simp add: trimmed_sent_padded)
  then show ?thesis by (rule trimmed_translated)
qed

text \<open>
  C6. For the \<open>k\<close>-th candidate and the text \<open>r\<close> its promise resolves with, in any order of
  settling: a literal has the value \<open>r\<close> in the tree that is printed; a JSX text has the
  value \<open>r\<close> between one space and one space, and \<open>r\<close> itself has no white space at its ends;
  a comment is written with the same, and keeps its kind (line or block): the callback
  does so on every tree that holds the comment, and the tree that is printed shows it
  whenever the node the comment sits on is not itself replaced.
\<close>

theorem writeback_shape:
  assumes "dryRun options \<or> newOpenAI env = None"
    and "dryRun options \<or> schedule (length (candidates root)) sched"
    and "k < length (candidates root)" and "candidates root ! k = (tg, s)"
    and "r = translated env k s (dryRun options)"
    and "final = translatedTree env sched root options file"
  shows "case tg of
      LiteralAt p \<Rightarrow> payload (LiteralAt p) final = Some r
    | JSXTextAt p \<Rightarrow>
        payload (JSXTextAt p) final = Some (lit '' '' @ r @ lit '' '') \<and> trimmed r
    | CommentAt p i \<Rightarrow>
        trimmed r \<and>
        (\<forall>t c. comment_at p i t = Some c \<longrightarrow>
           comment_at p i (callback tg r t) =
             Some (Comment (ctype c) (lit '' '' @ r @ lit '' ''))) \<and>
        (\<not> hostReplaced root tg \<longrightarrow>
           (\<exists>c. comment_at p i root = Some c \<and>
                comment_at p i final = Some (Comment (ctype c) (lit '' '' @ r @ lit '' ''))))"
proof (cases tg)
  case (LiteralAt p)
  have "\<not> hostReplaced root tg"
    using candidate_in_targets [OF assms(3,4)] LiteralAt
    by (intro candidate_not_hostReplaced) simp_all
  from translatedTree_candidate [OF assms(1,2,3,4) this, of "file"] LiteralAt assms(5,6)
  show ?thesis by simp
next
  case (JSXTextAt p)
  have "\<not> hostReplaced root tg"
    using candidate_in_targets [OF assms(3,4)] JSXTextAt
    by (intro candidate_not_hostReplaced) simp_all
  from translatedTree_candidate [OF assms(1,2,3,4) this, of "file"] JSXTextAt assms(5,6)
    candidate_trimmed [OF assms(3,4), of env "dryRun options"]
  show ?thesis by simp
next
  case (CommentAt p i)
  have t: "trimmed r"
    using candidate_trimmed [OF assms(3,4), of env "dryRun options"] CommentAt assms(5) by simp
  have op: "\<forall>t c. comment_at p i t = Some c \<longrightarrow>
      comment_at p i (callback tg r t) = Some (Comment (ctype c) (lit '' '' @ r @ lit '' ''))"
    unfolding CommentAt by (intro allI impI) (rule comment_at_callback_same)
  have fin: "\<exists>c. comment_at p i root = Some c \<and>
      comment_at p i final = Some (Comment (ctype c) (lit '' '' @ r @ lit '' ''))"
    if h: "\<not> hostReplaced root tg"
  proof -
    from candidate_payload [OF assms(3,4)] CommentAt obtain c where c: "comment_at p i root = Some c"
      by (auto simp add: payload_CommentAt)
    have "comment_at p i final = Some (Comment (ctype c) (lit '' '' @ r @ lit '' ''))"
      unfolding assms(5,6)
      using assms(1,2,3) assms(4) [unfolded CommentAt] h [unfolded CommentAt] c
      by (rule translatedTree_comment)
    with c show ?thesis by blast
  qed
  from t op fin CommentAt show ?thesis by simp
qed

theorem writeback_shape_witness:
  "comment_at [] 0 exampleTree = Some (Comment CommentLine (lit '' '' @ aisatsu)) \<and>
   comment_at [] 0
     (translatedTree (exampleEnv exampleTree hello) [2, 1, 0] exampleTree \<lparr>dryRun = False\<rparr>
        (lit ''a.tsx'')) = Some (Comment CommentLine (lit '' Hello '')) \<and>
   trimmed (lit ''Hello'')"
proof -
  let ?env = "exampleEnv exampleTree hello"
  let ?final = "translatedTree ?env [2, 1, 0] exampleTree \<lparr>dryRun = False\<rparr> (lit ''a.tsx'')"
  have r: "lit ''Hello'' = translated ?env 2 aisatsu (dryRun \<lparr>dryRun = False\<rparr>)"
    by (simp add: translated_def completion_def exampleEnv_def hello_def firstContent_def
        trim_def lit_def isWhiteSpace_def)
  have c: "comment_at [] 0 exampleTree = Some (Comment CommentLine (lit '' '' @ aisatsu))"
    by (simp add: comment_at_def exampleTree_def)
  have "case CommentAt [] 0 of
      LiteralAt p \<Rightarrow> payload (LiteralAt p) ?final = Some (lit ''Hello'')
    | JSXTextAt p \<Rightarrow>
        payload (JSXTextAt p) ?final = Some (lit '' '' @ lit ''Hello'' @ lit '' '') \<and>
        trimmed (lit ''Hello'')
    | CommentAt p i \<Rightarrow>
        trimmed (lit ''Hello'') \<and>
        (\<forall>t c. comment_at p i t = Some c \<longrightarrow>
           comment_at p i (callback (CommentAt [] 0) (lit ''Hello'') t) =
             Some (Comment (ctype c) (lit '' '' @ lit ''Hello'' @ lit '' ''))) \<and>
        (\<not> hostReplaced exampleTree (CommentAt [] 0) \<longrightarrow>
           (\<exists>c. comment_at p i exampleTree = Some c \<and>
                comment_at p i ?final =
                  Some (Comment (ctype c) (lit '' '' @ lit ''Hello'' @ lit '' ''))))"
  proof (rule writeback_shape [where k = 2 and s = aisatsu and env = ?env])
    show "dryRun \<lparr>dryRun = False\<rparr> \<or> newOpenAI ?env = None" by (simp add: exampleEnv_def)
    show "dryRun \<lparr>dryRun = False\<rparr> \<or> schedule (length (candidates exampleTree)) [2, 1, 0]"
      using schedule_example by simp
    show "2 < length (candidates exampleTree)" by (simp add: candidates_exampleTree)
    show "candidates exampleTree ! 2 = (CommentAt [] 0, aisatsu)"
      by (simp add: candidates_exampleTree)
    show "lit ''Hello'' = translated ?env 2 aisatsu (dryRun \<lparr>dryRun = False\<rparr>)" by (rule r)
    show "?final = ?final" ..
  qed
  with c hostReplaced_exampleTree(3) show ?thesis by (simp add: lit_def)
qed

section \<open>When every call fails\<close>

lemma all_fail_translated:
  assumes "\<not> dry" and "\<And>k s. \<exists>e. completion env k s = Inl e"
  shows "translated env k s dry = s"
proof -
  from assms(2) obtain e where "completion env k s = Inl e" by blast
  with assms(1) show ?thesis by (simp add: translated_def)
qed

lemma target_index:
  assumes "tg \<in> targets root"
  obtains k s where "k < length (candidates root)" "candidates root ! k = (tg, s)"
proof -
  from assms obtain s where "(tg, s) \<in> set (candidates root)" by (auto simp add: targets_def)
  then obtain k where "k < length (candidates root)" "candidates root ! k = (tg, s)"
    by (auto simp add: in_set_conv_nth)
  with that show thesis by blast
qed

text \<open>
  C2, as the code has it. When every backend call fails, the tree that is printed has
  the shape of the parsed tree; every literal has the value it had; every JSX text and
  comment that is a candidate has its trimmed text between one space and one space, so
  that its text is unchanged up to the white space around it; every other text is
  unchanged; and every comment keeps its kind. Comments on a literal or JSX text that is
  itself a candidate are left out of this statement.
\<close>

theorem failure_fallback:
  assumes "\<not> dryRun options" and "newOpenAI env = None"
    and "\<And>k s. \<exists>e. completion env k s = Inl e"
    and "schedule (length (candidates root)) sched"
    and "final = translatedTree env sched root options file"
  shows "frame final = frame root \<and>
     (\<forall>tg v. payload tg root = Some v \<longrightarrow> \<not> hostReplaced root tg \<longrightarrow>
        payload tg final =
          Some (if tg \<in> targets root \<and> padded tg then lit '' '' @ trim v @ lit '' '' else v)) \<and>
     (\<forall>p i c. comment_at p i root = Some c \<longrightarrow> \<not> hostReplaced root (CommentAt p i) \<longrightarrow>
        map_option ctype (comment_at p i final) = Some (ctype c))"
proof (intro conjI allI impI)
  have a: "dryRun options \<or> newOpenAI env = None" using assms(2) by simp
  have b: "dryRun options \<or> schedule (length (candidates root)) sched" using assms(4) by simp
  show "frame final = frame root"
    unfolding assms(5) using a b by (rule frame_translatedTree)
  show "payload tg final =
      Some (if tg \<in> targets root \<and> padded tg then lit '' '' @ trim v @ lit '' '' else v)"
    if v: "payload tg root = Some v" and h: "\<not> hostReplaced root tg" for tg v
  proof (cases "tg \<in> targets root")
    case False
    then show ?thesis
      unfolding assms(5) using translatedTree_other [OF a b False h, of "file"] v by simp
  next
    case True
    then obtain k s where k: "k < length (candidates root)" "candidates root ! k = (tg, s)"
      by (rule target_index)
    from candidate_payload [OF k] v have s: "s = sent tg v" by auto
    have "payload tg final = Some (written tg (translated env k s (dryRun options)))"
      unfolding assms(5) using a b k h by (rule translatedTree_candidate)
    also have "translated env k s (dryRun options) = s"
      using assms(1,3) by (rule all_fail_translated)
    finally show ?thesis using True s by (cases tg) simp_all
  qed
  show "map_option ctype (comment_at p i final) = Some (ctype c)"
    if c: "comment_at p i root = Some c" and h: "\<not> hostReplaced root (CommentAt p i)" for p i c
  proof (cases "CommentAt p i \<in> targets root")
    case False
    then show ?thesis
      unfolding assms(5) using translatedTree_other_comment [OF a b False h, of "file"] c by simp
  next
    case True
    then obtain k s where k: "k < length (candidates root)" "candidates root ! k = (CommentAt p i, s)"
      by (rule target_index)
    have "comment_at p i final =
        Some (Comment (ctype c) (lit '' '' @ translated env k s (dryRun options) @ lit '' ''))"
      unfolding assms(5) using a b k h c by (rule translatedTree_comment)
    then show ?thesis by simp
  qed
qed

lemma completion_timeout:
  "completion (exampleEnv root timeout) k s = Inl (Error (lit ''timeout''))"
  by (simp add: completion_def exampleEnv_def timeout_def)

lemma translatedTree_timeout:
  "translatedTree (exampleEnv exampleTree timeout) [0, 1, 2] exampleTree \<lparr>dryRun = False\<rparr>
     (lit ''a.tsx'') =
   Other [Comment CommentLine (lit '' '' @ aisatsu @ lit '' '')] ''Program''
     [StringLiteral [] konnichiwa, JSXText [] (lit '' '' @ konnichiwa @ lit '' ''),
      StringLiteral [] (lit ''x'')]"
proof -
  have "writes (translationPromises (exampleEnv exampleTree timeout) exampleTree False (lit ''a.tsx''))
      [0, 1, 2] =
      map (\<lambda>k. (fst (candidates exampleTree ! k),
        translated (exampleEnv exampleTree timeout) k (snd (candidates exampleTree ! k)) False))
        [0, 1, 2]"
    by (rule writes_translationPromises) (simp_all add: exampleEnv_def candidates_exampleTree)
  then show ?thesis
    by (simp add: translatedTree_def fst_settleAll settleOrder_def candidates_exampleTree
        translated_def completion_timeout)
      (simp add: exampleTree_def stringLiteral_def jsxText_def assignCommentValue_def)
qed

text \<open>
  C2 as stated has every text unchanged. A JSX text without white space around it comes
  back with a space on either side, although every call failed.
\<close>

theorem failure_unchanged_counterexample:
  "(\<forall>k s. \<exists>e. completion (exampleEnv exampleTree timeout) k s = Inl e) \<and>
   payload (JSXTextAt [1]) exampleTree = Some konnichiwa \<and>
   payload (JSXTextAt [1])
     (translatedTree (exampleEnv exampleTree timeout) [0, 1, 2] exampleTree \<lparr>dryRun = False\<rparr>
        (lit ''a.tsx'')) = Some (lit '' '' @ konnichiwa @ lit '' '') \<and>
   lit '' '' @ konnichiwa @ lit '' '' \<noteq> konnichiwa \<and>
   translatedTree (exampleEnv exampleTree timeout) [0, 1, 2] exampleTree \<lparr>dryRun = False\<rparr>
     (lit ''a.tsx'') \<noteq> exampleTree"
  unfolding translatedTree_timeout
  by (simp add: completion_timeout payload_def exampleTree_def lit_def konnichiwa_def)

lemma trim_konnichiwa: "trim konnichiwa = konnichiwa"
  by (simp add: trim_def konnichiwa_def isWhiteSpace_def)

theorem failure_fallback_witness:
  "frame (translatedTree (exampleEnv exampleTree timeout) [2, 1, 0] exampleTree
            \<lparr>dryRun = False\<rparr> (lit ''a.tsx'')) = frame exampleTree \<and>
   payload (LiteralAt [0])
     (translatedTree (exampleEnv exampleTree timeout) [2, 1, 0] exampleTree
        \<lparr>dryRun = False\<rparr> (lit ''a.tsx'')) = Some konnichiwa \<and>
   payload (JSXTextAt [1])
     (translatedTree (exampleEnv exampleTree timeout) [2, 1, 0] exampleTree
        \<lparr>dryRun = False\<rparr> (lit ''a.tsx'')) = Some (lit '' '' @ konnichiwa @ lit '' '') \<and>
   map_option ctype (comment_at [] 0
     (translatedTree (exampleEnv exampleTree timeout) [2, 1, 0] exampleTree
        \<lparr>dryRun = False\<rparr> (lit ''a.tsx''))) = Some CommentLine"
proof -
  let ?final = "translatedTree (exampleEnv exampleTree timeout) [2, 1, 0] exampleTree
        \<lparr>dryRun = False\<rparr> (lit ''a.tsx'')"
  have f: "frame ?final = frame exampleTree \<and>
     (\<forall>tg v. payload tg exampleTree = Some v \<longrightarrow> \<not> hostReplaced exampleTree tg \<longrightarrow>
        payload tg ?final =
          Some (if tg \<in> targets exampleTree \<and> padded tg then lit '' '' @ trim v @ lit '' '' else v)) \<and>
     (\<forall>p i c. comment_at p i exampleTree = Some c \<longrightarrow>
        \<not> hostReplaced exampleTree (CommentAt p i) \<longrightarrow>
        map_option ctype (comment_at p i ?final) = Some (ctype c))"
  proof (rule failure_fallback)
    show "\<not> dryRun \<lparr>dryRun = False\<rparr>" by simp
    show "newOpenAI (exampleEnv exampleTree timeout) = None" by (simp add: exampleEnv_def)
    show "\<exists>e. completion (exampleEnv exampleTree timeout) k s = Inl e" for k s
      by (simp add: completion_timeout)
    show "schedule (length (candidates exampleTree)) [2, 1, 0]" by (rule schedule_example)
    show "?final = ?final" ..
  qed
  have p0: "payload (LiteralAt [0]) exampleTree = Some konnichiwa"
    and p1: "payload (JSXTextAt [1]) exampleTree = Some konnichiwa"
    and c: "comment_at [] 0 exampleTree = Some (Comment CommentLine (lit '' '' @ aisatsu))"
    by (simp_all add: payload_def comment_at_def exampleTree_def)
  have t: "JSXTextAt [1] \<in> targets exampleTree"
    by (simp add: targets_def candidates_exampleTree)
  from f p0 hostReplaced_exampleTree(1)
  have a: "payload (LiteralAt [0]) ?final = Some konnichiwa" by simp
  from f p1 hostReplaced_exampleTree(2) t
  have b: "payload (JSXTextAt [1]) ?final = Some (lit '' '' @ konnichiwa @ lit '' '')"
    by (simp add: trim_konnichiwa)
  from f c hostReplaced_exampleTree(3)
  have d: "map_option ctype (comment_at [] 0 ?final) = Some CommentLine" by fastforce
  from f a b d show ?thesis by simp
qed

section \<open>Comments on a replaced node\<close>

lemma translatedTree_commentedArray:
  assumes "set sched = {0, 1}"
  shows "translatedTree (exampleEnv commentedArray hello) sched commentedArray \<lparr>dryRun = False\<rparr>
     file = Other [] ''ArrayExpression'' [StringLiteral [] (lit ''Hello'')]"
proof -
  let ?env = "exampleEnv commentedArray hello"
  have t: "translated ?env k s False = lit ''Hello''" for k s
    by (simp add: translated_def completion_def exampleEnv_def hello_def firstContent_def
        trim_def lit_def isWhiteSpace_def)
  have "writes (translationPromises ?env commentedArray False file) sched =
      map (\<lambda>k. (fst (candidates commentedArray ! k),
        translated ?env k (snd (candidates commentedArray ! k)) False)) sched"
    using assms
    by (intro writes_translationPromises) (auto simp add: exampleEnv_def candidates_commentedArray)
  then have w: "translatedTree ?env sched commentedArray \<lparr>dryRun = False\<rparr> file =
      applyWrites (map (\<lambda>k. (fst (candidates commentedArray ! k), lit ''Hello'')) sched)
        commentedArray"
    by (simp add: translatedTree_def fst_settleAll settleOrder_def t)
  have step: "applyWrites (map (\<lambda>k. (fst (candidates commentedArray ! k), lit ''Hello'')) ks) root =
      Other [] ''ArrayExpression'' [StringLiteral [] (lit ''Hello'')]"
    if "set ks \<subseteq> {0, 1}" "root = Other [] ''ArrayExpression'' [StringLiteral [] (lit ''Hello'')]
        \<or> (root = commentedArray \<and> 0 \<in> set ks)
        \<or> (root = Other [] ''ArrayExpression''
              [StringLiteral [Comment CommentLine (lit '' Hello '')] konnichiwa] \<and> 0 \<in> set ks)"
    for ks root
    using that
  proof (induction ks arbitrary: root)
    case Nil
    then show ?case by simp
  next
    case (Cons k ks)
    from Cons.prems(1) have "k = 0 \<or> k = 1" by auto
    then show ?case
    proof
      assume k: "k = 0"
      have "callback (LiteralAt [0]) (lit ''Hello'') root =
          Other [] ''ArrayExpression'' [StringLiteral [] (lit ''Hello'')]"
        using Cons.prems(2) by (auto simp add: commentedArray_def stringLiteral_def)
      with Cons.IH [of "Other [] ''ArrayExpression'' [StringLiteral [] (lit ''Hello'')]"]
        Cons.prems(1) k show ?thesis by (simp add: candidates_commentedArray)
    next
      assume k: "k = 1"
      let ?r = "callback (CommentAt [0] 0) (lit ''Hello'') root"
      have "?r = Other [] ''ArrayExpression'' [StringLiteral [] (lit ''Hello'')]
        \<or> (?r = Other [] ''ArrayExpression''
              [StringLiteral [Comment CommentLine (lit '' Hello '')] konnichiwa] \<and> 0 \<in> set ks)"
        using Cons.prems(2) k
        by (auto simp add: commentedArray_def assignCommentValue_def lit_def)
      then have "?r = Other [] ''ArrayExpression'' [StringLiteral [] (lit ''Hello'')]
        \<or> (?r = commentedArray \<and> 0 \<in> set ks)
        \<or> (?r = Other [] ''ArrayExpression''
              [StringLiteral [Comment CommentLine (lit '' Hello '')] konnichiwa] \<and> 0 \<in> set ks)"
        by blast
      with Cons.IH [of ?r] Cons.prems(1) k show ?thesis
        by (simp add: candidates_commentedArray del: callback.simps)
    qed
  qed
  show ?thesis unfolding w using assms by (intro step) auto
qed

lemma transform_prints_translatedTree:
  assumes "parser env api (source fileInfo) = Inr root"
    and "dryRun options \<or> newOpenAI env = None"
  shows "fst (transform env sched fileInfo api options) =
     (case toSource env (translatedTree env sched root options (path fileInfo)) of
        Inr output \<Rightarrow> output
      | Inl e \<Rightarrow> source fileInfo)"
proof -
  obtain r ev where t: "tryBlock env sched fileInfo api options = (r, ev)"
    by (cases "tryBlock env sched fileInfo api options")
  with tryBlock_tree [OF assms, of sched]
  have "r = toSource env (translatedTree env sched root options (path fileInfo))" by simp
  with t have "tryBlock env sched fileInfo api options =
      (toSource env (translatedTree env sched root options (path fileInfo)), ev)" by simp
  then show ?thesis by (simp add: transform_def split: sum.splits)
qed

lemma translatedTree_greetingArray:
  "translatedTree (exampleEnv greetingArray hello) [0] greetingArray \<lparr>dryRun = False\<rparr>
     (lit ''a.tsx'') = Other [] ''ArrayExpression'' [StringLiteral [] (lit ''Hello'')]"
proof -
  have "writes (translationPromises (exampleEnv greetingArray hello) greetingArray False (lit ''a.tsx''))
      [0] =
      map (\<lambda>k. (fst (candidates greetingArray ! k),
        translated (exampleEnv greetingArray hello) k (snd (candidates greetingArray ! k)) False))
        [0]"
    by (rule writes_translationPromises) (simp_all add: exampleEnv_def candidates_greetingArray)
  then show ?thesis
    by (simp add: translatedTree_def fst_settleAll settleOrder_def candidates_greetingArray
        translated_def completion_def exampleEnv_def hello_def firstContent_def)
      (simp add: greetingArray_def stringLiteral_def trim_def lit_def isWhiteSpace_def)
qed

text \<open>
  C1. Every candidate of the parsed tree is to be written back once, with the result of
  its own task, and no result is to be lost. The code loses one where a comment is
  attached to a literal that is a candidate itself: \<open>replaceWith(j.stringLiteral(...))\<close>
  puts a fresh node in the place of the literal, and the comments of the old node are not
  carried over. In the array below the literal and its line comment are both candidates.
  Whichever promise settles first, the tree that is printed holds the translated literal
  and no comment: the comment's translation is written to a node that is no longer part
  of the tree.
\<close>

theorem attached_comment_translation_lost:
  "candidates commentedArray = [(LiteralAt [0], konnichiwa), (CommentAt [0] 0, aisatsu)] \<and>
   comment_at [0] 0 commentedArray = Some (Comment CommentLine (lit '' '' @ aisatsu)) \<and>
   translatedTree (exampleEnv commentedArray hello) [0, 1] commentedArray \<lparr>dryRun = False\<rparr>
     (lit ''a.tsx'') = Other [] ''ArrayExpression'' [StringLiteral [] (lit ''Hello'')] \<and>
   translatedTree (exampleEnv commentedArray hello) [1, 0] commentedArray \<lparr>dryRun = False\<rparr>
     (lit ''a.tsx'') = Other [] ''ArrayExpression'' [StringLiteral [] (lit ''Hello'')] \<and>
   comment_at [0] 0 (Other [] ''ArrayExpression'' [StringLiteral [] (lit ''Hello'')]) = None"
proof -
  have a: "translatedTree (exampleEnv commentedArray hello) [0, 1] commentedArray
      \<lparr>dryRun = False\<rparr> (lit ''a.tsx'') =
      Other [] ''ArrayExpression'' [StringLiteral [] (lit ''Hello'')]"
    by (rule translatedTree_commentedArray) auto
  have b: "translatedTree (exampleEnv commentedArray hello) [1, 0] commentedArray
      \<lparr>dryRun = False\<rparr> (lit ''a.tsx'') =
      Other [] ''ArrayExpression'' [StringLiteral [] (lit ''Hello'')]"
    by (rule translatedTree_commentedArray) auto
  have c: "comment_at [0] 0 commentedArray = Some (Comment CommentLine (lit '' '' @ aisatsu))"
    by (simp add: comment_at_def commentedArray_def)
  have d: "comment_at [0] 0 (Other [] ''ArrayExpression'' [StringLiteral [] (lit ''Hello'')]) = None"
    by (simp add: comment_at_def)
  from candidates_commentedArray a b c d show ?thesis by simp
qed

text \<open>
  C9. The classifier yields every literal whose value, and every JSX text and comment
  whose trimmed value, contains Japanese, each once (the lemmas on \<open>candidates\<close> above), and
  text that does not match is to be left as it is. The code does not leave it where an
  English comment is attached to a Japanese literal: the comment is no candidate, and
  after the run it is gone from the tree, with the node it was attached to.
\<close>

theorem untranslated_comment_removed:
  "candidates greetingArray = [(LiteralAt [0], konnichiwa)] \<and>
   \<not> containsJapanese (trim (lit '' greeting '')) \<and>
   comment_at [0] 0 greetingArray = Some (Comment CommentBlock (lit '' greeting '')) \<and>
   translatedTree (exampleEnv greetingArray hello) [0] greetingArray \<lparr>dryRun = False\<rparr>
     (lit ''a.tsx'') = Other [] ''ArrayExpression'' [StringLiteral [] (lit ''Hello'')] \<and>
   comment_at [0] 0
     (translatedTree (exampleEnv greetingArray hello) [0] greetingArray \<lparr>dryRun = False\<rparr>
        (lit ''a.tsx'')) = None"
proof -
  have a: "\<not> containsJapanese (trim (lit '' greeting ''))"
    by (simp add: containsJapanese_def japaneseUnit_def trim_def lit_def isWhiteSpace_def)
  have b: "comment_at [0] 0 greetingArray = Some (Comment CommentBlock (lit '' greeting ''))"
    by (simp add: comment_at_def greetingArray_def)
  have c: "comment_at [0] 0 (Other [] ''ArrayExpression'' [StringLiteral [] (lit ''Hello'')]) = None"
    by (simp add: comment_at_def)
  from candidates_greetingArray a b c show ?thesis
    by (simp only: translatedTree_greetingArray) simp
qed

end
